theory Spec2Isabelle
  imports Main "HOL-Library.AList"
begin

section \<open>Data model of \<^verbatim>\<open>src/bot.js\<close>\<close>

text \<open>
  The program is a single JavaScript class \<^verbatim>\<open>Bot\<close> driven by Node's event loop.
  JavaScript runs every callback to completion, so the only places where other
  callbacks can interleave with \<^verbatim>\<open>run\<close> are its \<^verbatim>\<open>await\<close>s. The model therefore
  splits \<^verbatim>\<open>run\<close> into its synchronous prefix (\<open>run_begin\<close>), one continuation per
  entity (\<open>updateStreamer\<close>, entered when the probe of that entity settles) and
  its suffix (\<open>run_end\<close>), and treats every admin call, timer and child-process
  event as one atomic step on an explicit state.

  Values that the code distinguishes are kept apart: \<^verbatim>\<open>null\<close>, \<^verbatim>\<open>false\<close> and an
  object reference for \<^verbatim>\<open>proc\<close> and \<^verbatim>\<open>timeout\<close>; \<^verbatim>\<open>undefined\<close> versus an array
  for \<^verbatim>\<open>config.streamers\<close>; \<^verbatim>\<open>null\<close> for \<^verbatim>\<open>this.config\<close> before the first load.
  Logging has no effect on the state and is left out (except where the logger
  itself is dereferenced through a wrong receiver, see \<open>apiResponse\<close>).

  The registry \<^verbatim>\<open>this.streamers\<close> is created by \<^verbatim>\<open>{}\<close> (line 14), so a read of
  \<^verbatim>\<open>this.streamers[name]\<close> that finds no property of the registry itself goes on
  to \<^verbatim>\<open>Object.prototype\<close>; \<open>resolve\<close> below follows it there. The body of a
  class is strict code, so inside the methods an assignment to a property of
  \<^verbatim>\<open>undefined\<close> or of a primitive value throws a \<^verbatim>\<open>TypeError\<close>.
\<close>

datatype js_error = Error string | TypeError | SyntaxError

text \<open>JSON-like values: the payload of the status probe and the \<^verbatim>\<open>meta\<close> field.\<close>

datatype jsval =
    JUndefined
  | JNull
  | JBool bool
  | JNum int
  | JStr string
  | JObj "(string \<times> jsval) list"

text \<open>\<^verbatim>\<open>proc\<close> is \<^verbatim>\<open>null\<close> (lines 235, 243), \<^verbatim>\<open>false\<close> (lines 188, 201) or a
  \<^verbatim>\<open>ChildProcess\<close> object (line 182), represented by its index in the store of
  child processes.\<close>

datatype proc_ref = PNull | PFalse | PHandle nat

text \<open>\<^verbatim>\<open>timeout\<close> is \<^verbatim>\<open>null\<close> (line 16), \<^verbatim>\<open>false\<close> (line 222) or a timer object
  (line 261).\<close>

datatype timer_ref = TNull | TFalse | THandle nat

record streamer =
  recording :: bool
  paused :: bool
  proc :: proc_ref
  meta :: jsval

text \<open>The persisted configuration document. \<^verbatim>\<open>streamers\<close> and \<^verbatim>\<open>recordCmdArgs\<close> may
  be missing (\<^verbatim>\<open>undefined\<close>), which the code anticipates with \<^verbatim>\<open>|| []\<close>;
  \<^verbatim>\<open>checkInterval\<close> may be missing or zero (\<^verbatim>\<open>|| 60\<close>).\<close>

record config =
  cstreamers :: "string list option"
  checkInterval :: "nat option"
  recordCmd :: string
  recordCmdArgs :: "string list option"

text \<open>A child process as the program can observe it. \<open>pname\<close> is the \<^verbatim>\<open>name\<close>
  captured by the closures of its two observers (lines 185 and 197);
  \<open>exitCode\<close> is the property read at line 230 (\<^verbatim>\<open>null\<close> while the process has
  not exited, and also after it was terminated by a signal); \<open>sigints\<close> counts
  the calls of \<^verbatim>\<open>kill('SIGINT')\<close> on it; \<open>reported\<close> says that its \<^verbatim>\<open>exit\<close> or
  \<^verbatim>\<open>error\<close> event has been emitted.\<close>

record child =
  pname :: string
  cmd :: string
  args :: "string list"
  exitCode :: "int option"
  sigints :: nat
  reported :: bool

datatype timer = Pending nat | Cleared | Fired

text \<open>Content of \<^verbatim>\<open>/data/config.json\<close>: a document that \<^verbatim>\<open>JSON.parse\<close> rejects, or a
  configuration object.\<close>

datatype file_content = Corrupt | Doc config

text \<open>The fields of \<^verbatim>\<open>Bot\<close> (lines 11-17), followed by the part of the
  environment the methods read and write: the child processes spawned so far,
  the timers created so far, the configuration file (\<open>None\<close>: it does not
  exist) and \<^verbatim>\<open>example_config.json\<close>. The own properties of the registry
  \<^verbatim>\<open>this.streamers\<close> are an association list in insertion order, which is the
  order of \<^verbatim>\<open>Object.keys\<close> for names that are not array indices.

  \<open>inherited\<close> holds, by name, the objects that the registry inherits from
  \<^verbatim>\<open>Object.prototype\<close>: its eleven built-in methods, which are function objects,
  and under \<^verbatim>\<open>__proto__\<close> the prototype object itself. The program can read and
  write its four properties on such an object like on a record of its own; a
  property it has never written there is \<^verbatim>\<open>undefined\<close>, which every test of the
  program takes like \<^verbatim>\<open>false\<close> or \<^verbatim>\<open>null\<close> (\<open>unwritten\<close>). \<^verbatim>\<open>Object.keys\<close>,
  \<^verbatim>\<open>delete\<close> and the assignment of line 240 concern own properties only.

  A property written on the prototype object itself is inherited by every
  object. The program writes \<^verbatim>\<open>paused\<close> there when the name \<^verbatim>\<open>__proto__\<close> is paused
  or resumed, after which \<^verbatim>\<open>this.streamers['paused']\<close> is that boolean; \<open>resolve\<close>
  accounts for it. The other three properties are written there only by
  \<open>updateStreamer\<close>, the sync step or an observer working on the name
  \<^verbatim>\<open>__proto__\<close>, and \<^verbatim>\<open>paused\<close> is read through an inherited object only by
  \<open>updateStreamer\<close> on an inherited name; no probe is ever started and no
  process ever spawned for a name that is not a key of the registry, and an
  inherited name never becomes one (line 228), so these readings occur in no
  run of the program and each inherited object is modelled with the properties
  written on it alone.\<close>

record bot =
  config :: "config option"
  streamers :: "(string \<times> streamer) list"
  inherited :: "(string \<times> streamer) list"
  running :: bool
  timeout :: timer_ref
  procs :: "child list"
  timers :: "timer list"
  cfile :: "file_content option"
  example :: file_content

text \<open>A call either returns (every method returns \<^verbatim>\<open>true\<close> or, for the
  \<^verbatim>\<open>async\<close> ones, a promise) or throws; the state reached is kept in both
  cases, so that mutations made before a \<^verbatim>\<open>throw\<close> stay visible.\<close>

datatype outcome = Returned bot | Thrown js_error bot

fun state_of :: "outcome \<Rightarrow> bot" where
  "state_of (Returned s) = s"
| "state_of (Thrown e s) = s"

text \<open>The property names of \<^verbatim>\<open>Object.prototype\<close>, and the objects found under
  them before the program has written anything on them.\<close>

definition prototype_names :: "string list" where
  "prototype_names =
     [''constructor'', ''__defineGetter__'', ''__defineSetter__'', ''hasOwnProperty'',
      ''__lookupGetter__'', ''__lookupSetter__'', ''isPrototypeOf'',
      ''propertyIsEnumerable'', ''toString'', ''valueOf'', ''__proto__'',
      ''toLocaleString'']"

definition unwritten :: streamer where
  "unwritten = \<lparr>recording = False, paused = False, proc = PNull, meta = JUndefined\<rparr>"

definition prototype_objects :: "(string \<times> streamer) list" where
  "prototype_objects = map (\<lambda>n. (n, unwritten)) prototype_names"

definition constructor :: "file_content option \<Rightarrow> file_content \<Rightarrow> bot" where
  "constructor f ex =
     \<lparr>config = None, streamers = [], inherited = prototype_objects, running = False,
      timeout = TNull, procs = [], timers = [], cfile = f, example = ex\<rparr>"

section \<open>Reading and writing \<^verbatim>\<open>this.streamers[name]\<close>\<close>

text \<open>What \<^verbatim>\<open>this.streamers[name]\<close> evaluates to: an object, which is a record of
  the registry or an inherited object; the primitive \<^verbatim>\<open>true\<close>, under the name
  \<^verbatim>\<open>paused\<close> when \<^verbatim>\<open>Object.prototype.paused\<close> has been set to \<^verbatim>\<open>true\<close>; or nothing
  that has properties (\<^verbatim>\<open>undefined\<close>, or \<^verbatim>\<open>false\<close> under the name \<^verbatim>\<open>paused\<close> when
  \<^verbatim>\<open>Object.prototype.paused\<close> has been set to \<^verbatim>\<open>false\<close>: both are falsy, and an
  assignment to a property of either throws).\<close>

datatype place = Registry | Prototype

datatype found = Found place streamer | Primitive | Undefined

definition prototype_paused :: "bot \<Rightarrow> bool" where
  "prototype_paused s =
     (case map_of (inherited s) ''__proto__'' of None \<Rightarrow> False | Some r \<Rightarrow> paused r)"

definition resolve :: "bot \<Rightarrow> string \<Rightarrow> found" where
  "resolve s name =
     (case map_of (streamers s) name of
        Some r \<Rightarrow> Found Registry r
      | None \<Rightarrow>
          (case map_of (inherited s) name of
             Some r \<Rightarrow> Found Prototype r
           | None \<Rightarrow>
               if name = ''paused'' \<and> prototype_paused s then Primitive else Undefined))"

text \<open>An assignment to properties of the object found under \<open>name\<close>: \<open>r\<close> is
  the object after it.\<close>

definition put :: "place \<Rightarrow> string \<Rightarrow> streamer \<Rightarrow> bot \<Rightarrow> bot" where
  "put pl name r s =
     (case pl of
        Registry \<Rightarrow> s\<lparr>streamers := AList.update name r (streamers s)\<rparr>
      | Prototype \<Rightarrow> s\<lparr>inherited := AList.update name r (inherited s)\<rparr>)"

section \<open>Timers and signals\<close>

text \<open>\<^verbatim>\<open>proc.kill('SIGINT')\<close>: the signal is requested; nothing else changes until
  the process reports back through an event.\<close>

definition kill :: "nat \<Rightarrow> child list \<Rightarrow> child list" where
  "kill h ps =
     (if h < length ps then ps[h := (ps ! h)\<lparr>sigints := Suc (sigints (ps ! h))\<rparr>]
      else ps)"

definition clearTimeout :: "nat \<Rightarrow> timer list \<Rightarrow> timer list" where
  "clearTimeout h ts =
     (if h < length ts then (case ts ! h of Pending d \<Rightarrow> ts[h := Cleared] | _ \<Rightarrow> ts)
      else ts)"

text \<open>\<^verbatim>\<open>this.timeout && clearTimeout(this.timeout)\<close> (lines 25, 43, 62).\<close>

definition clear_pending :: "bot \<Rightarrow> bot" where
  "clear_pending s =
     (case timeout s of
        THandle h \<Rightarrow> s\<lparr>timers := clearTimeout h (timers s)\<rparr>
      | _ \<Rightarrow> s)"

section \<open>The reconciliation tick\<close>

text \<open>\<^verbatim>\<open>checkConfigExists\<close> (lines 135-140).\<close>

definition checkConfigExists :: "bot \<Rightarrow> bot" where
  "checkConfigExists s =
     (case cfile s of None \<Rightarrow> s\<lparr>cfile := Some (example s)\<rparr> | Some _ \<Rightarrow> s)"

text \<open>\<^verbatim>\<open>reloadConfig\<close> (lines 142-148). \<^verbatim>\<open>readFileSync\<close> throws when the file is
  missing and \<^verbatim>\<open>JSON.parse\<close> throws on a corrupt document.\<close>

definition reloadConfig :: "bot \<Rightarrow> outcome" where
  "reloadConfig s =
     (case cfile s of
        None \<Rightarrow> Thrown (Error ''ENOENT'') s
      | Some Corrupt \<Rightarrow> Thrown SyntaxError s
      | Some (Doc c) \<Rightarrow>
          Returned (if Some c \<noteq> config s then s\<lparr>config := Some c\<rparr> else s))"

text \<open>Line 230: \<^verbatim>\<open>proc && !proc.exitCode\<close>. A handle is truthy, \<^verbatim>\<open>null\<close> and \<^verbatim>\<open>false\<close>
  are not; \<^verbatim>\<open>!exitCode\<close> is true for \<^verbatim>\<open>null\<close> and for \<^verbatim>\<open>0\<close>.\<close>

definition exitCode_of :: "child list \<Rightarrow> nat \<Rightarrow> int option" where
  "exitCode_of ps h = (if h < length ps then exitCode (ps ! h) else None)"

definition proc_alive :: "child list \<Rightarrow> proc_ref \<Rightarrow> bool" where
  "proc_alive ps p =
     (case p of
        PHandle h \<Rightarrow> (case exitCode_of ps h of None \<Rightarrow> True | Some c \<Rightarrow> c = 0)
      | _ \<Rightarrow> False)"

definition default_streamer :: streamer where
  "default_streamer =
     \<lparr>recording = False, paused = False, proc = PNull, meta = JBool False\<rparr>"

text \<open>Body of the \<^verbatim>\<open>forEach\<close> at lines 227-247, for one configured name. Line
  228 tests \<^verbatim>\<open>this.streamers[streamer]\<close> for truthiness: a record is created
  only where nothing truthy is found. On the primitive \<^verbatim>\<open>true\<close> line 229 reads
  \<^verbatim>\<open>undefined\<close>.\<close>

definition sync_streamer :: "string \<Rightarrow> bot \<Rightarrow> bot" where
  "sync_streamer name s =
     (case resolve s name of
        Found pl r \<Rightarrow>
          if recording r then
            (if \<not> proc_alive (procs s) (proc r)
             then put pl name (r\<lparr>recording := False, proc := PNull\<rparr>) s
             else s)
          else s
      | Primitive \<Rightarrow> s
      | Undefined \<Rightarrow> s\<lparr>streamers := AList.update name default_streamer (streamers s)\<rparr>)"

text \<open>Body of the \<^verbatim>\<open>forEach\<close> at lines 250-255, for one key of the registry
  that is not configured. The key is always present: the keys are distinct and
  each iteration deletes its own key only.\<close>

definition prune_streamer ::
  "string \<Rightarrow> (string \<times> streamer) list \<Rightarrow> (string \<times> streamer) list" where
  "prune_streamer name reg =
     (case map_of reg name of
        Some r \<Rightarrow> if \<not> recording r then AList.delete name reg else reg
      | None \<Rightarrow> reg)"

definition prune :: "string list \<Rightarrow> (string \<times> streamer) list \<Rightarrow> (string \<times> streamer) list" where
  "prune names reg =
     fold prune_streamer (filter (\<lambda>n. n \<notin> set names) (map fst reg)) reg"

text \<open>The synchronous prefix of \<^verbatim>\<open>run\<close> (lines 221-255). It ends where line 258
  has started one probe for every key of the registry. Being inside an
  \<^verbatim>\<open>async\<close> function, a \<^verbatim>\<open>throw\<close> here rejects the promise of \<^verbatim>\<open>run\<close> and the
  tick goes no further.\<close>

definition run_begin :: "bot \<Rightarrow> outcome" where
  "run_begin s =
     (let s1 = s\<lparr>running := True, timeout := TFalse\<rparr>;
          s2 = checkConfigExists s1
      in case reloadConfig s2 of
           Thrown e s3 \<Rightarrow> Thrown e s3
         | Returned s3 \<Rightarrow>
             (case config s3 of
                None \<Rightarrow> Thrown TypeError s3
              | Some c \<Rightarrow>
                  (case cstreamers c of
                     None \<Rightarrow> Thrown TypeError s3
                   | Some names \<Rightarrow>
                       (let s4 = fold sync_streamer names s3
                        in Returned (s4\<lparr>streamers := prune names (streamers s4)\<rparr>)))))"

text \<open>\<^verbatim>\<open>getInfo\<close> (lines 150-160). Its argument is what \<^verbatim>\<open>axios.get\<close> settles
  with: a rejection, or the \<^verbatim>\<open>data\<close> of the response.\<close>

definition getInfo :: "js_error + jsval \<Rightarrow> js_error + jsval" where
  "getInfo response =
     (case response of
        Inr d \<Rightarrow> Inr d
      | Inl error \<Rightarrow> Inr (JBool False))"

text \<open>\<^verbatim>\<open>info['room_status']\<close>: reading a property of \<^verbatim>\<open>null\<close> or \<^verbatim>\<open>undefined\<close>
  throws; a primitive has no such property.\<close>

definition room_status :: "jsval \<Rightarrow> js_error + jsval" where
  "room_status info =
     (case info of
        JNull \<Rightarrow> Inl TypeError
      | JUndefined \<Rightarrow> Inl TypeError
      | JObj kvs \<Rightarrow>
          Inr (case map_of kvs ''room_status'' of None \<Rightarrow> JUndefined | Some v \<Rightarrow> v)
      | _ \<Rightarrow> Inr JUndefined)"

text \<open>Lines 172-183: spawn the recorder and store its handle on the object
  found under \<open>name\<close>.\<close>

definition start :: "place \<Rightarrow> string \<Rightarrow> config \<Rightarrow> streamer \<Rightarrow> bot \<Rightarrow> bot" where
  "start pl name c r s =
     (let args = (case recordCmdArgs c of None \<Rightarrow> [] | Some a \<Rightarrow> a)
                   @ [''https://chaturbate.com/'' @ name @ ''/''];
          childProcess =
            \<lparr>pname = name, cmd = recordCmd c, args = args, exitCode = None,
             sigints = 0, reported = False\<rparr>
      in put pl name (r\<lparr>proc := PHandle (length (procs s)), recording := True\<rparr>)
           (s\<lparr>procs := procs s @ [childProcess]\<rparr>))"

text \<open>\<^verbatim>\<open>updateStreamer\<close> (lines 162-210), from the moment the probe settles. The
  assignment of line 164 throws when \<^verbatim>\<open>this.streamers[name]\<close> is not an object.\<close>

definition updateStreamer :: "string \<Rightarrow> js_error + jsval \<Rightarrow> bot \<Rightarrow> outcome" where
  "updateStreamer name response s =
     (case getInfo response of
        Inl e \<Rightarrow> Thrown e s
      | Inr info \<Rightarrow>
          (case resolve s name of
             Undefined \<Rightarrow> Thrown TypeError s
           | Primitive \<Rightarrow> Thrown TypeError s
           | Found pl r0 \<Rightarrow>
               (let r = r0\<lparr>meta := info\<rparr>;
                    s1 = put pl name r s
                in if paused r then Returned s1
                   else
                     (case room_status info of
                        Inl e \<Rightarrow> Thrown e s1
                      | Inr st \<Rightarrow>
                          if st = JStr ''public'' \<and> \<not> recording r then
                            (case config s1 of
                               None \<Rightarrow> Thrown TypeError s1
                             | Some c \<Rightarrow> Returned (start pl name c r s1))
                          else Returned s1))))"

text \<open>Lines 260-263: schedule the successor tick.\<close>

definition run_end :: "bot \<Rightarrow> outcome" where
  "run_end s =
     (case config s of
        None \<Rightarrow> Thrown TypeError s
      | Some c \<Rightarrow>
          (let t = (case checkInterval c of None \<Rightarrow> 60 | Some n \<Rightarrow> if n = 0 then 60 else n)
           in Returned (s\<lparr>timers := timers s @ [Pending (t * 1000)],
                          timeout := THandle (length (timers s))\<rparr>)))"

text \<open>Line 258, \<^verbatim>\<open>Promise.all\<close>: every continuation runs, also after another one
  has thrown; the first error is the one the promise rejects with.\<close>

fun run_updates :: "(string \<Rightarrow> js_error + jsval) \<Rightarrow> string list \<Rightarrow> bot \<Rightarrow> js_error option \<times> bot" where
  "run_updates probe [] s = (None, s)"
| "run_updates probe (n # ns) s =
     (case updateStreamer n (probe n) s of
        Returned s1 \<Rightarrow> run_updates probe ns s1
      | Thrown e s1 \<Rightarrow> (Some e, snd (run_updates probe ns s1)))"

text \<open>One whole tick with nothing interleaved: \<^verbatim>\<open>run\<close> from line 221 to line 263.
  The probes are started in the order of \<^verbatim>\<open>Object.keys\<close> and settle in any
  order; \<open>order\<close> rearranges the keys into the order in which they settle.\<close>

definition run ::
  "(string list \<Rightarrow> string list) \<Rightarrow> (string \<Rightarrow> js_error + jsval) \<Rightarrow> bot \<Rightarrow> outcome" where
  "run order probe s =
     (case run_begin s of
        Thrown e s1 \<Rightarrow> Thrown e s1
      | Returned s1 \<Rightarrow>
          (case run_updates probe (order (map fst (streamers s1))) s1 of
             (Some e, s2) \<Rightarrow> Thrown e s2
           | (None, s2) \<Rightarrow> run_end s2))"

section \<open>Observers of a child process\<close>

text \<open>Lines 187-194 and 200-207: the reset-or-delete shared by both observers.
  \<^verbatim>\<open>this.config.streamers.includes\<close> throws when there is no configuration or
  no list in it; the two assignments throw when the name is configured and
  \<^verbatim>\<open>this.streamers[name]\<close> is not an object. \<^verbatim>\<open>delete\<close> removes an own property
  and leaves an inherited one.\<close>

definition reset_or_delete :: "string \<Rightarrow> bot \<Rightarrow> outcome" where
  "reset_or_delete name s =
     (case config s of
        None \<Rightarrow> Thrown TypeError s
      | Some c \<Rightarrow>
          (case cstreamers c of
             None \<Rightarrow> Thrown TypeError s
           | Some names \<Rightarrow>
               if name \<in> set names then
                 (case resolve s name of
                    Undefined \<Rightarrow> Thrown TypeError s
                  | Primitive \<Rightarrow> Thrown TypeError s
                  | Found pl r \<Rightarrow>
                      Returned (put pl name (r\<lparr>proc := PFalse, recording := False\<rparr>) s))
               else Returned (s\<lparr>streamers := AList.delete name (streamers s)\<rparr>)))"

text \<open>The \<^verbatim>\<open>exit\<close> observer (lines 185-195) and the \<^verbatim>\<open>error\<close> observer (lines
  197-208) of the child process with handle \<open>h\<close>, spawned for \<open>name\<close>.\<close>

definition on_exit :: "string \<Rightarrow> bot \<Rightarrow> outcome" where
  "on_exit name s = reset_or_delete name s"

definition on_error :: "nat \<Rightarrow> string \<Rightarrow> bot \<Rightarrow> outcome" where
  "on_error h name s = reset_or_delete name (s\<lparr>procs := kill h (procs s)\<rparr>)"

text \<open>The events themselves: Node sets \<^verbatim>\<open>exitCode\<close> (\<open>None\<close> when a signal ended
  the process) and emits \<^verbatim>\<open>exit\<close>, or emits \<^verbatim>\<open>error\<close>; the observer registered
  for that child runs. An exception thrown by an observer is uncaught.\<close>

definition child_exit :: "nat \<Rightarrow> int option \<Rightarrow> bot \<Rightarrow> outcome" where
  "child_exit h code s =
     (if h < length (procs s) then
        on_exit (pname (procs s ! h))
          (s\<lparr>procs := (procs s)[h := (procs s ! h)\<lparr>exitCode := code, reported := True\<rparr>]\<rparr>)
      else Returned s)"

definition child_error :: "nat \<Rightarrow> bot \<Rightarrow> outcome" where
  "child_error h s =
     (if h < length (procs s) then
        on_error h (pname (procs s ! h))
          (s\<lparr>procs := (procs s)[h := (procs s ! h)\<lparr>reported := True\<rparr>]\<rparr>)
      else Returned s)"

section \<open>Administrative methods\<close>

text \<open>\<^verbatim>\<open>pause\<close> (lines 37-49).\<close>

definition pause :: "bot \<Rightarrow> outcome" where
  "pause s =
     (if \<not> running s then Thrown (Error ''Bot not running'') s
      else Returned ((clear_pending s)\<lparr>running := False\<rparr>))"

text \<open>\<^verbatim>\<open>this.run()\<close> called from a method (lines 70, 129) or from the route
  \<^verbatim>\<open>/api/run\<close>: the prefix of \<^verbatim>\<open>run\<close> executes at once, and whatever happens the
  caller receives a promise, never an exception.\<close>

definition call_run :: "bot \<Rightarrow> bot" where
  "call_run s = state_of (run_begin s)"

text \<open>The argument of the next four methods is \<^verbatim>\<open>req.query.streamer\<close>: \<open>None\<close>
  when the query has no such parameter. \<^verbatim>\<open>!name\<close> holds for \<^verbatim>\<open>undefined\<close> and
  for the empty string.\<close>

definition config_streamers :: "config \<Rightarrow> string list" where
  "config_streamers c = (case cstreamers c of None \<Rightarrow> [] | Some xs \<Rightarrow> xs)"

text \<open>\<^verbatim>\<open>addStreamer\<close> (lines 51-74).\<close>

fun addStreamer :: "string option \<Rightarrow> bot \<Rightarrow> outcome" where
  "addStreamer None s = Thrown (Error ''No streamer parameter supplied'') s"
| "addStreamer (Some name) s =
     (if name = [] then Thrown (Error ''No streamer parameter supplied'') s
      else
        (case config s of
           None \<Rightarrow> Thrown TypeError s
         | Some c \<Rightarrow>
             if name \<in> set (config_streamers c)
             then Thrown (Error ''Streamer already in streamers list'') s
             else
               (let s1 = clear_pending s;
                    c1 = c\<lparr>cstreamers := Some (config_streamers c @ [name])\<rparr>;
                    s2 = s1\<lparr>config := Some c1, cfile := Some (Doc c1)\<rparr>
                in Returned (if running s2 then call_run s2 else s2))))"

text \<open>\<^verbatim>\<open>removeStreamer\<close> (lines 76-91).\<close>

fun removeStreamer :: "string option \<Rightarrow> bot \<Rightarrow> outcome" where
  "removeStreamer None s = Thrown (Error ''No streamer parameter supplied'') s"
| "removeStreamer (Some name) s =
     (if name = [] then Thrown (Error ''No streamer parameter supplied'') s
      else
        (case config s of
           None \<Rightarrow> Thrown TypeError s
         | Some c \<Rightarrow>
             if name \<notin> set (config_streamers c)
             then Thrown (Error ''Streamer is not in streamers list'') s
             else
               (let c1 = c\<lparr>cstreamers := Some (filter (\<lambda>streamer. streamer \<noteq> name) (config_streamers c))\<rparr>
                in Returned (s\<lparr>config := Some c1, cfile := Some (Doc c1)\<rparr>))))"

text \<open>\<^verbatim>\<open>pauseStreamer\<close> (lines 93-112). On \<^verbatim>\<open>undefined\<close> the read of line 104
  throws; on a primitive it yields \<^verbatim>\<open>undefined\<close> and the assignment of line 109
  throws.\<close>

fun pauseStreamer :: "string option \<Rightarrow> bot \<Rightarrow> outcome" where
  "pauseStreamer None s = Thrown (Error ''No streamer parameter supplied'') s"
| "pauseStreamer (Some name) s =
     (if name = [] then Thrown (Error ''No streamer parameter supplied'') s
      else
        (case config s of
           None \<Rightarrow> Thrown TypeError s
         | Some c \<Rightarrow>
             if name \<notin> set (config_streamers c) \<and> name \<notin> set (map fst (streamers s))
             then Thrown (Error ''Streamer is not in streamers list'') s
             else
               (case resolve s name of
                  Undefined \<Rightarrow> Thrown TypeError s
                | Primitive \<Rightarrow> Thrown TypeError s
                | Found pl r \<Rightarrow>
                    (let s1 = (case proc r of
                                 PHandle h \<Rightarrow> s\<lparr>procs := kill h (procs s)\<rparr>
                               | _ \<Rightarrow> s)
                     in Returned (put pl name (r\<lparr>paused := True\<rparr>) s1)))))"

text \<open>\<^verbatim>\<open>resumeStreamer\<close> (lines 114-133).\<close>

fun resumeStreamer :: "string option \<Rightarrow> bot \<Rightarrow> outcome" where
  "resumeStreamer None s = Thrown (Error ''No streamer parameter supplied'') s"
| "resumeStreamer (Some name) s =
     (if name = [] then Thrown (Error ''No streamer parameter supplied'') s
      else
        (case config s of
           None \<Rightarrow> Thrown TypeError s
         | Some c \<Rightarrow>
             if name \<notin> set (config_streamers c) \<and> name \<notin> set (map fst (streamers s))
             then Thrown (Error ''Streamer is not in streamers list'') s
             else
               (case resolve s name of
                  Undefined \<Rightarrow> Thrown TypeError s
                | Primitive \<Rightarrow> Thrown TypeError s
                | Found pl r \<Rightarrow>
                    (let s1 = put pl name (r\<lparr>paused := False\<rparr>) s
                     in Returned (if running s1 then call_run s1 else s1)))))"

section \<open>The API layer\<close>

datatype api_data = Status bool "config option" "(string \<times> streamer) list" | OK | FAIL

text \<open>What a route hands to \<^verbatim>\<open>res.json\<close>, or the exception that leaves the route
  handler.\<close>

datatype response = Success api_data | Failure js_error

datatype api_result = Responds response bot | Escapes js_error bot

text \<open>\<^verbatim>\<open>getStatus\<close> (lines 212-218).\<close>

definition getStatus :: "bot \<Rightarrow> api_data" where
  "getStatus s = Status (running s) (config s) (streamers s)"

text \<open>\<^verbatim>\<open>apiResponse\<close> (lines 288-302). The \<^verbatim>\<open>catch\<close> block first evaluates
  \<^verbatim>\<open>this.logger.info(...)\<close>. The first argument is the value of \<^verbatim>\<open>this.logger\<close>
  (\<open>None\<close>: \<^verbatim>\<open>undefined\<close>), on which reading \<^verbatim>\<open>info\<close> throws a \<^verbatim>\<open>TypeError\<close>
  before the failure object is built. \<open>data\<close> is what the callback evaluates
  to when the method it calls returns.\<close>

definition apiResponse :: "unit option \<Rightarrow> api_data \<Rightarrow> outcome \<Rightarrow> api_result" where
  "apiResponse this_logger data callback =
     (case callback of
        Returned s \<Rightarrow> Responds (Success data) s
      | Thrown e s \<Rightarrow>
          (case this_logger of
             None \<Rightarrow> Escapes TypeError s
           | Some _ \<Rightarrow> Responds (Failure e) s))"

text \<open>Every route calls \<^verbatim>\<open>apiResponse(...)\<close> as a plain function (lines 314-348),
  so its \<^verbatim>\<open>this\<close> is not the bot: the file is a CommonJS script without
  \<^verbatim>\<open>'use strict'\<close>, \<^verbatim>\<open>this\<close> is the global object, and the \<^verbatim>\<open>logger\<close> of line 268 is
  a \<^verbatim>\<open>const\<close> of the module, not a property of the global object.\<close>

definition this_logger :: "unit option" where
  "this_logger = None"

text \<open>The routes (lines 313-350). Every method returns \<^verbatim>\<open>true\<close> or a promise, so
  the conditional \<^verbatim>\<open>? 'OK' : 'FAIL'\<close> yields \<^verbatim>\<open>'OK'\<close> whenever it is reached.\<close>

definition api_status :: "bot \<Rightarrow> api_result" where
  "api_status s = apiResponse this_logger (getStatus s) (Returned s)"

definition api_pause :: "bot \<Rightarrow> api_result" where
  "api_pause s = apiResponse this_logger OK (pause s)"

definition api_run :: "bot \<Rightarrow> api_result" where
  "api_run s = apiResponse this_logger OK (Returned (call_run s))"

definition api_add :: "string option \<Rightarrow> bot \<Rightarrow> api_result" where
  "api_add streamer s = apiResponse this_logger OK (addStreamer streamer s)"

definition api_remove :: "string option \<Rightarrow> bot \<Rightarrow> api_result" where
  "api_remove streamer s = apiResponse this_logger OK (removeStreamer streamer s)"

definition api_pauseStreamer :: "string option \<Rightarrow> bot \<Rightarrow> api_result" where
  "api_pauseStreamer streamer s = apiResponse this_logger OK (pauseStreamer streamer s)"

definition api_resumeStreamer :: "string option \<Rightarrow> bot \<Rightarrow> api_result" where
  "api_resumeStreamer streamer s = apiResponse this_logger OK (resumeStreamer streamer s)"

section \<open>Events\<close>

text \<open>Everything that can run between two \<^verbatim>\<open>await\<close>s, as one step each: the
  seven admin calls, a timer firing (line 261), a probe settling, the end of a
  tick, the two events of a child process, and an edit of the configuration
  file from outside.\<close>

datatype event =
    GetStatus
  | Pause
  | Run
  | AddStreamer "string option"
  | RemoveStreamer "string option"
  | PauseStreamer "string option"
  | ResumeStreamer "string option"
  | TimerFires nat
  | ProbeSettles string "js_error + jsval"
  | TickEnds
  | ChildExit nat "int option"
  | ChildError nat
  | FileEdited "file_content option"

definition timer_fires :: "nat \<Rightarrow> bot \<Rightarrow> outcome" where
  "timer_fires h s =
     (if h < length (timers s) then
        (case timers s ! h of
           Pending d \<Rightarrow> run_begin (s\<lparr>timers := (timers s)[h := Fired]\<rparr>)
         | _ \<Rightarrow> Returned s)
      else Returned s)"

fun step :: "event \<Rightarrow> bot \<Rightarrow> outcome" where
  "step GetStatus s = Returned s"
| "step Pause s = pause s"
| "step Run s = Returned (call_run s)"
| "step (AddStreamer n) s = addStreamer n s"
| "step (RemoveStreamer n) s = removeStreamer n s"
| "step (PauseStreamer n) s = pauseStreamer n s"
| "step (ResumeStreamer n) s = resumeStreamer n s"
| "step (TimerFires h) s = timer_fires h s"
| "step (ProbeSettles n response) s = updateStreamer n response s"
| "step TickEnds s = run_end s"
| "step (ChildExit h code) s = child_exit h code s"
| "step (ChildError h) s = child_error h s"
| "step (FileEdited f) s = Returned (s\<lparr>cfile := f\<rparr>)"

text \<open>A sequence of events, stopping at the first exception.\<close>

fun steps :: "event list \<Rightarrow> bot \<Rightarrow> outcome" where
  "steps [] s = Returned s"
| "steps (e # es) s =
     (case step e s of
        Returned s1 \<Rightarrow> steps es s1
      | Thrown err s1 \<Rightarrow> Thrown err s1)"

section \<open>Invariants and auxiliary predicates\<close>

text \<open>What the code maintains for the record stored under \<open>n\<close>: \<^verbatim>\<open>proc\<close> and
  \<^verbatim>\<open>recording\<close> are always assigned together (lines 182-183, 188-189, 201-202,
  234-235, 241-243), a stored handle is the child spawned for \<open>n\<close>, and that
  child has not reported yet.\<close>

definition rec_ok :: "child list \<Rightarrow> string \<Rightarrow> streamer \<Rightarrow> bool" where
  "rec_ok ps n r =
     (case proc r of
        PHandle h \<Rightarrow>
          recording r \<and> h < length ps \<and> pname (ps ! h) = n \<and> \<not> reported (ps ! h)
      | _ \<Rightarrow> \<not> recording r)"

text \<open>For an inherited object: a handle stored on it is the child spawned for
  its name.\<close>

definition inh_ok :: "child list \<Rightarrow> string \<Rightarrow> streamer \<Rightarrow> bool" where
  "inh_ok ps n r =
     (case proc r of
        PHandle h \<Rightarrow> h < length ps \<and> pname (ps ! h) = n
      | _ \<Rightarrow> True)"

definition bot_inv :: "bot \<Rightarrow> bool" where
  "bot_inv s =
     (distinct (map fst (streamers s)) \<and>
      (config s = None \<longrightarrow> streamers s = []) \<and>
      (\<forall>(n, r) \<in> set (streamers s). rec_ok (procs s) n r) \<and>
      (\<forall>(n, r) \<in> set (inherited s). inh_ok (procs s) n r))"

text \<open>Node sets \<^verbatim>\<open>exitCode\<close> in the callback that emits the event: a child with an
  exit code has reported.\<close>

definition exit_inv :: "bot \<Rightarrow> bool" where
  "exit_inv s = (\<forall>p \<in> set (procs s). exitCode p \<noteq> None \<longrightarrow> reported p)"

text \<open>\<open>name\<close> is absent from the configuration, in memory and on disk.\<close>

definition unconfigured :: "string \<Rightarrow> bot \<Rightarrow> bool" where
  "unconfigured name s =
     (case config s of
        None \<Rightarrow> False
      | Some c \<Rightarrow>
          cfile s = Some (Doc c) \<and>
          (case cstreamers c of None \<Rightarrow> False | Some names \<Rightarrow> name \<notin> set names))"

text \<open>\<open>name\<close> is unconfigured and its record is still recording with the
  child \<open>h\<close>.\<close>

definition draining :: "string \<Rightarrow> nat \<Rightarrow> bot \<Rightarrow> bool" where
  "draining name h s =
     (unconfigured name s \<and> h < length (procs s) \<and> pname (procs s ! h) = name \<and>
      (case map_of (streamers s) name of
         None \<Rightarrow> False
       | Some r \<Rightarrow> recording r \<and> proc r = PHandle h))"

text \<open>Events that put \<open>name\<close> back into the configuration, or that are the
  report of a child spawned for \<open>name\<close>.\<close>

fun ends_drain :: "string \<Rightarrow> bot \<Rightarrow> event \<Rightarrow> bool" where
  "ends_drain name s (AddStreamer n) = (n = Some name)"
| "ends_drain name s (FileEdited f) = True"
| "ends_drain name s (ChildExit h code) = (h < length (procs s) \<and> pname (procs s ! h) = name)"
| "ends_drain name s (ChildError h) = (h < length (procs s) \<and> pname (procs s ! h) = name)"
| "ends_drain name s e = False"

text \<open>The two events whose callback is an observer of a child process: an
  exception thrown there is uncaught and ends the program.\<close>

fun is_report :: "event \<Rightarrow> bool" where
  "is_report (ChildExit h code) = True"
| "is_report (ChildError h) = True"
| "is_report e = False"

text \<open>After the sync step: something truthy is found under \<open>n\<close>, and if it
  is recording its process passes the test of line 230.\<close>

definition synced :: "string \<Rightarrow> bot \<Rightarrow> bool" where
  "synced n s =
     (case resolve s n of
        Found pl r \<Rightarrow> \<not> recording r \<or> proc_alive (procs s) (proc r)
      | Primitive \<Rightarrow> True
      | Undefined \<Rightarrow> False)"

text \<open>After \<open>updateStreamer\<close>: the record of \<open>n\<close> holds the payload of its probe
  and the guards of lines 166 and 170 leave nothing to start.\<close>

definition settled :: "(string \<Rightarrow> js_error + jsval) \<Rightarrow> string \<Rightarrow> (string \<times> streamer) list \<Rightarrow> bool" where
  "settled probe n reg =
     (case map_of reg n of
        None \<Rightarrow> False
      | Some r \<Rightarrow>
          getInfo (probe n) = Inr (meta r) \<and>
          (paused r \<or>
           (case room_status (meta r) of
              Inl e \<Rightarrow> False
            | Inr st \<Rightarrow> st \<noteq> JStr ''public'' \<or> recording r)))"

text \<open>The registry as a whole: distinct keys (it is an object), every record
  as above.\<close>

definition reg_ok :: "child list \<Rightarrow> (string \<times> streamer) list \<Rightarrow> bool" where
  "reg_ok ps reg \<longleftrightarrow> distinct (map fst reg) \<and> (\<forall>n r. map_of reg n = Some r \<longrightarrow> rec_ok ps n r)"

text \<open>The inherited objects as a whole, and both stores together.\<close>

definition inherited_ok :: "child list \<Rightarrow> (string \<times> streamer) list \<Rightarrow> bool" where
  "inherited_ok ps inh \<longleftrightarrow> (\<forall>(n, r) \<in> set inh. inh_ok ps n r)"

definition heap_ok :: "bot \<Rightarrow> bool" where
  "heap_ok s \<longleftrightarrow> reg_ok (procs s) (streamers s) \<and> inherited_ok (procs s) (inherited s)"

text \<open>After the prune step: what is not configured is recording.\<close>

definition pruned :: "string list \<Rightarrow> (string \<times> streamer) list \<Rightarrow> bool" where
  "pruned names reg = (\<forall>n r. map_of reg n = Some r \<longrightarrow> n \<in> set names \<or> recording r)"

text \<open>A state in which a tick with the probe results \<open>probe\<close> finds nothing to
  do.\<close>

definition quiescent :: "(string \<Rightarrow> js_error + jsval) \<Rightarrow> bot \<Rightarrow> bool" where
  "quiescent probe s =
     (\<exists>c names. config s = Some c \<and> cfile s = Some (Doc c) \<and> cstreamers c = Some names \<and>
        (\<forall>n\<in>set names. synced n s) \<and>
        pruned names (streamers s) \<and>
        (\<forall>n\<in>set (map fst (streamers s)). settled probe n (streamers s)))"

section \<open>Example states\<close>

definition cfg_of :: "string list \<Rightarrow> config" where
  "cfg_of names =
     \<lparr>cstreamers = Some names, checkInterval = None, recordCmd = ''yt-dlp'',
      recordCmdArgs = None\<rparr>"

definition live :: jsval where
  "live = JObj [(''room_status'', JStr ''public'')]"

text \<open>A freshly constructed bot whose configuration file lists \<open>names\<close>.\<close>

definition boot :: "string list \<Rightarrow> bot" where
  "boot names = constructor (Some (Doc (cfg_of names))) Corrupt"

text \<open>The state after one tick in which \<^verbatim>\<open>alice\<close> was found live.\<close>

definition recording_alice :: bot where
  "recording_alice =
     \<lparr>config = Some (cfg_of [''alice'']),
      streamers =
        [(''alice'', \<lparr>recording = True, paused = False, proc = PHandle 0, meta = live\<rparr>)],
      inherited = prototype_objects,
      running = True, timeout = THandle 0,
      procs =
        [\<lparr>pname = ''alice'', cmd = ''yt-dlp'', args = [''https://chaturbate.com/alice/''],
          exitCode = None, sigints = 0, reported = False\<rparr>],
      timers = [Pending 60000],
      cfile = Some (Doc (cfg_of [''alice''])),
      example = Corrupt\<rparr>"


text \<open>The bot paused between two ticks, \<^verbatim>\<open>bob\<close> added afterwards: configured, not
  yet in the registry.\<close>

definition bob_added :: bot where
  "bob_added =
     \<lparr>config = Some (cfg_of [''alice'', ''bob'']),
      streamers = [(''alice'', default_streamer)],
      inherited = prototype_objects,
      running = False, timeout = TFalse, procs = [], timers = [],
      cfile = Some (Doc (cfg_of [''alice'', ''bob''])),
      example = Corrupt\<rparr>"

text \<open>The bot after a first tick that was paused while in flight.\<close>

definition paused_midtick :: bot where
  "paused_midtick =
     \<lparr>config = Some (cfg_of [''alice'']),
      streamers = [(''alice'', default_streamer)],
      inherited = prototype_objects,
      running = False, timeout = THandle 0, procs = [], timers = [Pending 60000],
      cfile = Some (Doc (cfg_of [''alice''])),
      example = Corrupt\<rparr>"

text \<open>\<^verbatim>\<open>alice\<close> removed from the configuration while its recorder runs.\<close>

definition alice_removed :: bot where
  "alice_removed =
     recording_alice\<lparr>config := Some (cfg_of []), cfile := Some (Doc (cfg_of []))\<rparr>"

text \<open>The bot paused between two ticks, \<^verbatim>\<open>constructor\<close> added afterwards: a
  configured name with no record of its own, for which \<^verbatim>\<open>this.streamers[name]\<close>
  finds the function inherited from \<^verbatim>\<open>Object.prototype\<close>.\<close>

definition constructor_added :: bot where
  "constructor_added =
     bob_added\<lparr>config := Some (cfg_of [''alice'', ''constructor'']),
               cfile := Some (Doc (cfg_of [''alice'', ''constructor'']))\<rparr>"

text \<open>\<^verbatim>\<open>alice\<close> was removed during a recording; the next tick has started the probe
  for its key; the recorder has exited since, and its observer has deleted the
  record.\<close>

definition drained_midtick :: bot where
  "drained_midtick =
     \<lparr>config = Some (cfg_of []),
      streamers = [],
      inherited = prototype_objects,
      running = True, timeout = TFalse,
      procs =
        [\<lparr>pname = ''alice'', cmd = ''yt-dlp'', args = [''https://chaturbate.com/alice/''],
          exitCode = Some 0, sigints = 0, reported = True\<rparr>],
      timers = [Fired],
      cfile = Some (Doc (cfg_of [])),
      example = Corrupt\<rparr>"

section \<open>Evaluation\<close>

lemmas bot_defs =
  boot_def cfg_of_def constructor_def call_run_def run_begin_def checkConfigExists_def
  reloadConfig_def sync_streamer_def prune_def prune_streamer_def default_streamer_def
  updateStreamer_def getInfo_def room_status_def live_def start_def run_end_def Let_def
  pause_def clear_pending_def clearTimeout_def kill_def timer_fires_def proc_alive_def
  exitCode_of_def config_streamers_def reset_or_delete_def on_exit_def on_error_def
  child_exit_def child_error_def resolve_def put_def prototype_paused_def
  prototype_objects_def prototype_names_def unwritten_def

lemma recording_alice_reached:
  "steps [Run, ProbeSettles ''alice'' (Inr live), TickEnds] (boot [''alice''])
     = Returned recording_alice"
  by (simp add: recording_alice_def bot_defs)

section \<open>Reading and writing, basic facts\<close>

lemma resolve_own: "map_of (streamers s) n = Some r \<Longrightarrow> resolve s n = Found Registry r"
  by (simp add: resolve_def)

lemma resolve_Found:
  "resolve s n = Found pl r \<longleftrightarrow>
     (pl = Registry \<and> map_of (streamers s) n = Some r) \<or>
     (pl = Prototype \<and> map_of (streamers s) n = None \<and> map_of (inherited s) n = Some r)"
  by (auto simp: resolve_def split: option.splits)

lemma resolve_no_object:
  "resolve s n = Undefined \<or> resolve s n = Primitive \<longleftrightarrow>
     map_of (streamers s) n = None \<and> map_of (inherited s) n = None"
  by (auto simp: resolve_def split: option.splits)

lemma put_fields [simp]:
  "procs (put pl n r s) = procs s"
  "config (put pl n r s) = config s"
  "cfile (put pl n r s) = cfile s"
  "running (put pl n r s) = running s"
  "timers (put pl n r s) = timers s"
  "timeout (put pl n r s) = timeout s"
  "example (put pl n r s) = example s"
  by (simp_all add: put_def split: place.splits)

lemma put_stores [simp]:
  "streamers (put Registry n r s) = AList.update n r (streamers s)"
  "inherited (put Registry n r s) = inherited s"
  "streamers (put Prototype n r s) = streamers s"
  "inherited (put Prototype n r s) = AList.update n r (inherited s)"
  by (simp_all add: put_def)

lemma put_procs_commute: "put pl n r (s\<lparr>procs := ps\<rparr>) = (put pl n r s)\<lparr>procs := ps\<rparr>"
  by (simp add: put_def split: place.splits)

lemma set_update_cases:
  "(a, b) \<in> set (AList.update k v al) \<Longrightarrow> (a, b) = (k, v) \<or> (a, b) \<in> set al"
  by (induction al) (auto split: if_splits)

section \<open>The registry invariant, operation by operation\<close>

lemma bot_inv_lookup:
  "bot_inv s \<longleftrightarrow>
     distinct (map fst (streamers s)) \<and> (config s = None \<longrightarrow> streamers s = []) \<and>
     (\<forall>n r. map_of (streamers s) n = Some r \<longrightarrow> rec_ok (procs s) n r) \<and>
     inherited_ok (procs s) (inherited s)"
  unfolding bot_inv_def inherited_ok_def
  by (auto dest: map_of_SomeD)

lemma bot_inv_heap_ok: "bot_inv s \<longleftrightarrow> heap_ok s \<and> (config s = None \<longrightarrow> streamers s = [])"
  by (auto simp: bot_inv_lookup reg_ok_def heap_ok_def)

lemma rec_ok_inh_ok: "rec_ok ps n r \<Longrightarrow> inh_ok ps n r"
  by (auto simp: rec_ok_def inh_ok_def split: proc_ref.splits)

lemma reg_ok_update: "reg_ok ps reg \<Longrightarrow> rec_ok ps n r \<Longrightarrow> reg_ok ps (AList.update n r reg)"
  by (auto simp: reg_ok_def distinct_update update_conv' split: if_splits)

lemma reg_ok_delete: "reg_ok ps reg \<Longrightarrow> reg_ok ps (AList.delete n reg)"
  by (auto simp: reg_ok_def distinct_delete delete_conv' split: if_splits)

lemma reg_ok_lookup: "reg_ok ps reg \<Longrightarrow> map_of reg n = Some r \<Longrightarrow> rec_ok ps n r"
  by (simp add: reg_ok_def)

lemma inherited_ok_update:
  "inherited_ok ps inh \<Longrightarrow> inh_ok ps n r \<Longrightarrow> inherited_ok ps (AList.update n r inh)"
  unfolding inherited_ok_def by (auto dest: set_update_cases)

lemma inherited_ok_lookup: "inherited_ok ps inh \<Longrightarrow> map_of inh n = Some r \<Longrightarrow> inh_ok ps n r"
  unfolding inherited_ok_def by (auto dest: map_of_SomeD)

lemma heap_ok_put:
  assumes "heap_ok s" and "pl = Registry \<longrightarrow> rec_ok (procs s) n r" and "inh_ok (procs s) n r"
  shows "heap_ok (put pl n r s)"
  using assms by (cases pl) (auto simp: heap_ok_def reg_ok_update inherited_ok_update)

lemma heap_ok_found:
  assumes "heap_ok s" and "resolve s n = Found pl r"
  shows "(pl = Registry \<longrightarrow> rec_ok (procs s) n r) \<and> inh_ok (procs s) n r"
  using assms
  by (auto simp: heap_ok_def resolve_Found dest: reg_ok_lookup inherited_ok_lookup rec_ok_inh_ok)

lemma rec_ok_meta [simp]: "rec_ok ps n (r\<lparr>meta := x\<rparr>) = rec_ok ps n r"
  by (simp add: rec_ok_def split: proc_ref.splits)

lemma rec_ok_paused [simp]: "rec_ok ps n (r\<lparr>paused := x\<rparr>) = rec_ok ps n r"
  by (simp add: rec_ok_def split: proc_ref.splits)

lemma inh_ok_meta [simp]: "inh_ok ps n (r\<lparr>meta := x\<rparr>) = inh_ok ps n r"
  by (simp add: inh_ok_def split: proc_ref.splits)

lemma inh_ok_paused [simp]: "inh_ok ps n (r\<lparr>paused := x\<rparr>) = inh_ok ps n r"
  by (simp add: inh_ok_def split: proc_ref.splits)

lemma rec_ok_reset [simp]:
  "rec_ok ps n (r\<lparr>recording := False, proc := PNull\<rparr>)"
  "rec_ok ps n (r\<lparr>proc := PFalse, recording := False\<rparr>)"
  "rec_ok ps n default_streamer"
  by (simp_all add: rec_ok_def default_streamer_def)

lemma heap_ok_same_object:
  assumes "heap_ok s" and "resolve s n = Found pl r"
    and "proc r' = proc r" and "recording r' = recording r"
  shows "heap_ok (put pl n r' s)"
proof -
  from heap_ok_found[OF assms(1,2)]
  have "(pl = Registry \<longrightarrow> rec_ok (procs s) n r') \<and> inh_ok (procs s) n r'"
    using assms(3,4) by (auto simp: rec_ok_def inh_ok_def split: proc_ref.splits)
  then show ?thesis using assms(1) by (intro heap_ok_put) auto
qed

lemma heap_ok_reset:
  assumes "heap_ok s"
  shows "heap_ok (put pl n (r\<lparr>recording := False, proc := PNull\<rparr>) s)"
    and "heap_ok (put pl n (r\<lparr>proc := PFalse, recording := False\<rparr>) s)"
  using assms by (auto intro!: heap_ok_put rec_ok_inh_ok)

lemma heap_ok_frame:
  assumes "heap_ok s" and "streamers s' = streamers s" and "inherited s' = inherited s"
    and "procs s' = procs s"
  shows "heap_ok s'"
  using assms by (simp add: heap_ok_def)

lemma heap_ok_sync_streamer: "heap_ok s \<Longrightarrow> heap_ok (sync_streamer n s)"
proof -
  assume h: "heap_ok s"
  have "heap_ok (s\<lparr>streamers := AList.update n default_streamer (streamers s)\<rparr>)"
    using h by (auto simp: heap_ok_def reg_ok_update)
  with h show ?thesis
    by (auto simp: sync_streamer_def heap_ok_reset split: found.splits)
qed

lemma sync_streamer_frame [simp]:
  "procs (sync_streamer n s) = procs s"
  "config (sync_streamer n s) = config s"
  "cfile (sync_streamer n s) = cfile s"
  "running (sync_streamer n s) = running s"
  "timers (sync_streamer n s) = timers s"
  "timeout (sync_streamer n s) = timeout s"
  by (auto simp: sync_streamer_def split: found.splits)

lemma fold_sync_frame [simp]:
  "procs (fold sync_streamer names s) = procs s"
  "config (fold sync_streamer names s) = config s"
  "cfile (fold sync_streamer names s) = cfile s"
  "running (fold sync_streamer names s) = running s"
  "timers (fold sync_streamer names s) = timers s"
  "timeout (fold sync_streamer names s) = timeout s"
  by (induction names arbitrary: s) simp_all

lemma heap_ok_sync: "heap_ok s \<Longrightarrow> heap_ok (fold sync_streamer names s)"
  by (induction names arbitrary: s) (auto simp: heap_ok_sync_streamer)

lemma reg_ok_prune_streamer: "reg_ok ps reg \<Longrightarrow> reg_ok ps (prune_streamer n reg)"
  by (auto simp: prune_streamer_def intro!: reg_ok_delete split: option.splits)

lemma reg_ok_fold_prune: "reg_ok ps reg \<Longrightarrow> reg_ok ps (fold prune_streamer ns reg)"
  by (induction ns arbitrary: reg) (auto simp: reg_ok_prune_streamer)

lemma reg_ok_prune: "reg_ok ps reg \<Longrightarrow> reg_ok ps (prune names reg)"
  by (simp add: prune_def reg_ok_fold_prune)

lemma heap_ok_prune: "heap_ok s \<Longrightarrow> heap_ok (s\<lparr>streamers := prune names (streamers s)\<rparr>)"
  by (simp add: heap_ok_def reg_ok_prune)

lemma rec_ok_append: "rec_ok ps n r \<Longrightarrow> rec_ok (ps @ [c]) n r"
  by (auto simp: rec_ok_def nth_append split: proc_ref.splits)

lemma inh_ok_append: "inh_ok ps n r \<Longrightarrow> inh_ok (ps @ [c]) n r"
  by (auto simp: inh_ok_def nth_append split: proc_ref.splits)

lemma heap_ok_append: "heap_ok s \<Longrightarrow> heap_ok (s\<lparr>procs := procs s @ [c]\<rparr>)"
  by (auto simp: heap_ok_def reg_ok_def inherited_ok_def rec_ok_append inh_ok_append)

lemma kill_update_pname: "pname (kill h ps ! k) = pname (ps ! k)"
  by (cases "h = k") (auto simp: kill_def)

lemma length_kill [simp]: "length (kill h ps) = length ps"
  by (simp add: kill_def)

lemma rec_ok_kill: "rec_ok ps n r \<Longrightarrow> rec_ok (kill h ps) n r"
  by (auto simp: rec_ok_def kill_def nth_list_update split: proc_ref.splits)

lemma inh_ok_kill: "inh_ok ps n r \<Longrightarrow> inh_ok (kill h ps) n r"
  by (auto simp: inh_ok_def kill_update_pname split: proc_ref.splits)

lemma heap_ok_kill: "heap_ok s \<Longrightarrow> heap_ok (s\<lparr>procs := kill h (procs s)\<rparr>)"
  by (auto simp: heap_ok_def reg_ok_def inherited_ok_def rec_ok_kill inh_ok_kill)

lemma nth_other_child: "pname (ps ! x) \<noteq> pname (ps ! h) \<Longrightarrow> ps[h := v] ! x = ps ! x"
  by (cases "h = x") auto

lemma rec_ok_other_report:
  "rec_ok ps m r \<Longrightarrow> m \<noteq> pname (ps ! h) \<Longrightarrow> rec_ok (ps[h := v]) m r"
  by (auto simp: rec_ok_def nth_other_child split: proc_ref.splits)

lemma pname_list_update:
  "pname v = pname (ps ! h) \<Longrightarrow> pname (ps[h := v] ! k) = pname (ps ! k)"
  by (cases "h = k"; cases "h < length ps") (auto simp: list_update_beyond)

lemma inh_ok_report:
  "inh_ok ps m r \<Longrightarrow> pname v = pname (ps ! h) \<Longrightarrow> inh_ok (ps[h := v]) m r"
  by (auto simp: inh_ok_def pname_list_update split: proc_ref.splits)

lemma inherited_ok_report:
  "inherited_ok ps inh \<Longrightarrow> pname v = pname (ps ! h) \<Longrightarrow> inherited_ok (ps[h := v]) inh"
  unfolding inherited_ok_def by (auto simp: inh_ok_report)

lemma reg_ok_report_reset:
  assumes "reg_ok ps reg" "\<not> recording r'" "proc r' = PFalse"
  shows "reg_ok (ps[h := v]) (AList.update (pname (ps ! h)) r' reg)"
  using assms
  by (auto simp: reg_ok_def distinct_update update_conv' rec_ok_other_report split: if_splits)
     (simp add: rec_ok_def)

lemma reg_ok_report_delete:
  assumes "reg_ok ps reg"
  shows "reg_ok (ps[h := v]) (AList.delete (pname (ps ! h)) reg)"
  using assms
  by (auto simp: reg_ok_def distinct_delete delete_conv' rec_ok_other_report split: if_splits)

lemma reg_ok_report_absent:
  assumes "reg_ok ps reg" "map_of reg (pname (ps ! h)) = None"
  shows "reg_ok (ps[h := v]) reg"
  using assms
  by (auto simp: reg_ok_def intro!: rec_ok_other_report)

lemma heap_ok_run_begin: "heap_ok s \<Longrightarrow> heap_ok (state_of (run_begin s))"
proof -
  assume h: "heap_ok s"
  have a: "heap_ok s'" if "streamers s' = streamers s" "inherited s' = inherited s" "procs s' = procs s" for s'
    using h that by (rule heap_ok_frame)
  have b: "heap_ok ((fold sync_streamer names s')\<lparr>streamers := prune names (streamers (fold sync_streamer names s'))\<rparr>)"
    if "heap_ok s'" for s' names
    using that by (intro heap_ok_prune heap_ok_sync)
  show ?thesis
    by (auto simp: run_begin_def Let_def checkConfigExists_def reloadConfig_def intro!: a b
        split: option.splits file_content.splits)
qed

lemma run_begin_config:
  "config (state_of (run_begin s)) = None \<Longrightarrow> streamers (state_of (run_begin s)) = streamers s \<and> config s = None"
  by (auto simp: run_begin_def Let_def checkConfigExists_def reloadConfig_def
      split: option.splits file_content.splits if_splits)

lemma bot_inv_run_begin: "bot_inv s \<Longrightarrow> bot_inv (state_of (run_begin s))"
  using run_begin_config[of s] by (auto simp: bot_inv_heap_ok heap_ok_run_begin)

lemma bot_inv_call_run: "bot_inv s \<Longrightarrow> bot_inv (call_run s)"
  by (simp add: call_run_def bot_inv_run_begin)

lemma bot_inv_timer: "bot_inv s \<Longrightarrow> bot_inv (s\<lparr>timers := ts\<rparr>)"
  by (simp add: bot_inv_def)

lemma bot_inv_clear_pending: "bot_inv s \<Longrightarrow> bot_inv (clear_pending s)"
  by (auto simp: clear_pending_def bot_inv_def split: timer_ref.splits)

lemma bot_inv_pause: "bot_inv s \<Longrightarrow> bot_inv (state_of (pause s))"
  using bot_inv_clear_pending[of s]
  by (auto simp: pause_def bot_inv_def)

lemma bot_inv_addStreamer: "bot_inv s \<Longrightarrow> bot_inv (state_of (addStreamer n s))"
proof (cases n)
  case None then show "bot_inv s \<Longrightarrow> ?thesis" by simp
next
  case (Some name)
  assume inv: "bot_inv s"
  have a: "bot_inv ((clear_pending s)\<lparr>config := Some c, cfile := f\<rparr>)" for c f
    using bot_inv_clear_pending[OF inv] by (simp add: bot_inv_def)
  show ?thesis using inv a Some
    by (auto simp: Let_def bot_inv_call_run split: option.splits)
qed

lemma bot_inv_removeStreamer: "bot_inv s \<Longrightarrow> bot_inv (state_of (removeStreamer n s))"
  by (cases n) (auto simp: bot_inv_def Let_def split: option.splits)

lemma bot_inv_lookup_rec: "bot_inv s \<Longrightarrow> map_of (streamers s) name = Some r \<Longrightarrow> rec_ok (procs s) name r"
  by (auto simp: bot_inv_lookup)

lemma bot_inv_put:
  assumes "bot_inv s" and "resolve s n = Found pl r0"
    and "pl = Registry \<longrightarrow> rec_ok (procs s) n r" and "inh_ok (procs s) n r"
  shows "bot_inv (put pl n r s)"
proof -
  have "heap_ok (put pl n r s)"
    using assms by (intro heap_ok_put) (auto simp: bot_inv_heap_ok)
  moreover have "config s \<noteq> None" if "pl = Registry"
    using assms(1,2) that by (auto simp: bot_inv_heap_ok resolve_Found)
  ultimately show ?thesis
    using assms(1) by (cases pl) (auto simp: bot_inv_heap_ok)
qed

lemma bot_inv_same_object:
  assumes "bot_inv s" and "resolve s n = Found pl r"
    and "proc r' = proc r" and "recording r' = recording r"
  shows "bot_inv (put pl n r' s)"
proof -
  have "heap_ok s" using assms(1) by (simp add: bot_inv_heap_ok)
  from heap_ok_found[OF this assms(2)]
  have "(pl = Registry \<longrightarrow> rec_ok (procs s) n r') \<and> inh_ok (procs s) n r'"
    using assms(3,4) by (auto simp: rec_ok_def inh_ok_def split: proc_ref.splits)
  then show ?thesis using assms(1,2) by (intro bot_inv_put[where ?r0.0 = r]) auto
qed

lemma bot_inv_procs_kill: "bot_inv s \<Longrightarrow> bot_inv (s\<lparr>procs := kill h (procs s)\<rparr>)"
  by (simp add: bot_inv_heap_ok heap_ok_kill)

lemma resolve_frame:
  "streamers s' = streamers s \<Longrightarrow> inherited s' = inherited s \<Longrightarrow> resolve s' n = resolve s n"
  unfolding resolve_def prototype_paused_def by presburger

lemma resolve_procs [simp]: "resolve (s\<lparr>procs := ps\<rparr>) n = resolve s n"
  by (rule resolve_frame) simp_all

lemma resolve_timers [simp]: "resolve (s\<lparr>timers := ts\<rparr>) n = resolve s n"
  by (rule resolve_frame) simp_all

lemma bot_inv_pauseStreamer: "bot_inv s \<Longrightarrow> bot_inv (state_of (pauseStreamer n s))"
proof (cases n)
  case None then show "bot_inv s \<Longrightarrow> ?thesis" by simp
next
  case (Some name)
  assume inv: "bot_inv s"
  have a: "bot_inv (put pl name (r\<lparr>paused := True\<rparr>) s1)"
    if "resolve s name = Found pl r" "s1 = s \<or> s1 = s\<lparr>procs := kill h (procs s)\<rparr>" for r h pl s1
  proof -
    have "bot_inv s1" using that(2) inv bot_inv_procs_kill[OF inv, of h] by auto
    moreover have "resolve s1 name = Found pl r" using that by auto
    ultimately show ?thesis by (rule bot_inv_same_object) simp_all
  qed
  show ?thesis using inv Some
    by (auto simp: Let_def intro!: a split: option.splits proc_ref.splits found.splits)
qed

lemma bot_inv_resumeStreamer: "bot_inv s \<Longrightarrow> bot_inv (state_of (resumeStreamer n s))"
proof (cases n)
  case None then show "bot_inv s \<Longrightarrow> ?thesis" by simp
next
  case (Some name)
  assume inv: "bot_inv s"
  have a: "bot_inv (put pl name (r\<lparr>paused := False\<rparr>) s)"
    if "resolve s name = Found pl r" for r pl
    using inv that by (rule bot_inv_same_object) simp_all
  show ?thesis using inv a Some
    by (auto simp: Let_def bot_inv_call_run split: option.splits found.splits)
qed

lemma bot_inv_timer_fires: "bot_inv s \<Longrightarrow> bot_inv (state_of (timer_fires h s))"
  using bot_inv_run_begin[of "s\<lparr>timers := (timers s)[h := Fired]\<rparr>"]
  by (auto simp: timer_fires_def bot_inv_timer split: timer.splits)

lemma bot_inv_start:
  assumes "bot_inv s" and "resolve s name = Found pl r0"
  shows "bot_inv (start pl name c r s)"
proof -
  let ?child = "\<lparr>pname = name, cmd = recordCmd c,
      args = (case recordCmdArgs c of None \<Rightarrow> [] | Some a \<Rightarrow> a) @ [''https://chaturbate.com/'' @ name @ ''/''],
      exitCode = None, sigints = 0, reported = False\<rparr>"
  let ?s = "s\<lparr>procs := procs s @ [?child]\<rparr>"
  have "bot_inv ?s"
    using assms(1) by (simp add: bot_inv_heap_ok heap_ok_append)
  moreover have "resolve ?s name = Found pl r0" using assms(2) by simp
  moreover have "rec_ok (procs ?s) name (r\<lparr>proc := PHandle (length (procs s)), recording := True\<rparr>)"
    by (simp add: rec_ok_def)
  ultimately have "bot_inv (put pl name (r\<lparr>proc := PHandle (length (procs s)), recording := True\<rparr>) ?s)"
    by (intro bot_inv_put[where ?r0.0 = r0]) (auto dest: rec_ok_inh_ok)
  then show ?thesis by (simp add: start_def Let_def)
qed

lemma resolve_put_same: "resolve s n = Found pl r0 \<Longrightarrow> resolve (put pl n r s) n = Found pl r"
  by (cases pl) (auto simp: resolve_Found update_conv')

lemma bot_inv_updateStreamer: "bot_inv s \<Longrightarrow> bot_inv (state_of (updateStreamer n response s))"
proof -
  assume inv: "bot_inv s"
  have a: "bot_inv (put pl n (r\<lparr>meta := info\<rparr>) s)" if "resolve s n = Found pl r" for pl r info
    using inv that by (rule bot_inv_same_object) simp_all
  have b: "bot_inv (start pl n c r' (put pl n (r\<lparr>meta := info\<rparr>) s))"
    if "resolve s n = Found pl r" for pl r r' info c
    using a[OF that] resolve_put_same[OF that] by (rule bot_inv_start)
  show ?thesis using inv
    by (auto simp: updateStreamer_def Let_def a b split: option.splits sum.splits found.splits)
qed

lemma bot_inv_run_end: "bot_inv s \<Longrightarrow> bot_inv (state_of (run_end s))"
  by (auto simp: run_end_def bot_inv_def Let_def split: option.splits)

lemma bot_inv_reset_or_delete:
  assumes "bot_inv s" and "h < length (procs s)" and "pname v = pname (procs s ! h)"
    and "reset_or_delete (pname (procs s ! h)) (s\<lparr>procs := (procs s)[h := v]\<rparr>) = Returned s'"
  shows "bot_inv s'"
proof -
  let ?ps = "(procs s)[h := v]" and ?n = "pname (procs s ! h)"
  have reg: "reg_ok (procs s) (streamers s)" and inh: "inherited_ok ?ps (inherited s)"
    and cfg: "config s = None \<longrightarrow> streamers s = []"
    using assms(1,3) by (auto simp: bot_inv_heap_ok heap_ok_def inherited_ok_report)
  have own: "heap_ok (put Registry ?n (r\<lparr>proc := PFalse, recording := False\<rparr>) (s\<lparr>procs := ?ps\<rparr>))" for r
    using reg inh by (simp add: heap_ok_def reg_ok_report_reset)
  have pro: "heap_ok (put Prototype ?n (r\<lparr>proc := PFalse, recording := False\<rparr>) (s\<lparr>procs := ?ps\<rparr>))"
    if "map_of (streamers s) ?n = None" for r
    using reg inh that
    by (simp add: heap_ok_def reg_ok_report_absent inherited_ok_update inh_ok_def)
  have del: "heap_ok (s\<lparr>procs := ?ps, streamers := AList.delete ?n (streamers s)\<rparr>)"
    using reg inh by (simp add: heap_ok_def reg_ok_report_delete)
  show ?thesis
    using assms(4) cfg own pro del
    by (auto simp: reset_or_delete_def bot_inv_heap_ok resolve_Found
        split: option.splits if_splits found.splits place.splits)
qed

lemma bot_inv_child_exit: "bot_inv s \<Longrightarrow> child_exit h code s = Returned s' \<Longrightarrow> bot_inv s'"
  using bot_inv_reset_or_delete[of s h "(procs s ! h)\<lparr>exitCode := code, reported := True\<rparr>" s']
  by (auto simp: child_exit_def on_exit_def split: if_splits)

lemma kill_list_update: "h < length ps \<Longrightarrow> kill h (ps[h := v]) = ps[h := v\<lparr>sigints := Suc (sigints v)\<rparr>]"
  by (simp add: kill_def)

lemma bot_inv_child_error: "bot_inv s \<Longrightarrow> child_error h s = Returned s' \<Longrightarrow> bot_inv s'"
  using bot_inv_reset_or_delete[of s h "(procs s ! h)\<lparr>reported := True, sigints := Suc (sigints (procs s ! h))\<rparr>" s']
  by (auto simp: child_error_def on_error_def kill_list_update split: if_splits)

lemma bot_inv_file: "bot_inv s \<Longrightarrow> bot_inv (s\<lparr>cfile := f\<rparr>)"
  by (simp add: bot_inv_def)

lemma bot_inv_step_any:
  assumes "bot_inv s" and "is_report e \<longrightarrow> (\<exists>s'. step e s = Returned s')"
  shows "bot_inv (state_of (step e s))"
proof (cases e)
  case GetStatus then show ?thesis using assms by simp
next
  case Pause then show ?thesis using bot_inv_pause[OF assms(1)] by simp
next
  case Run then show ?thesis using bot_inv_call_run[OF assms(1)] by simp
next
  case (AddStreamer n) then show ?thesis using bot_inv_addStreamer[OF assms(1), of n] by simp
next
  case (RemoveStreamer n) then show ?thesis using bot_inv_removeStreamer[OF assms(1), of n] by simp
next
  case (PauseStreamer n) then show ?thesis using bot_inv_pauseStreamer[OF assms(1), of n] by simp
next
  case (ResumeStreamer n) then show ?thesis using bot_inv_resumeStreamer[OF assms(1), of n] by simp
next
  case (TimerFires h) then show ?thesis using bot_inv_timer_fires[OF assms(1), of h] by simp
next
  case (ProbeSettles n r) then show ?thesis using bot_inv_updateStreamer[OF assms(1), of n r] by simp
next
  case TickEnds then show ?thesis using bot_inv_run_end[OF assms(1)] by simp
next
  case (ChildExit h code)
  with assms(2) obtain s' where "child_exit h code s = Returned s'" by auto
  with bot_inv_child_exit[OF assms(1) this] ChildExit show ?thesis by simp
next
  case (ChildError h)
  with assms(2) obtain s' where "child_error h s = Returned s'" by auto
  with bot_inv_child_error[OF assms(1) this] ChildError show ?thesis by simp
next
  case (FileEdited f) then show ?thesis using bot_inv_file[OF assms(1)] by simp
qed

lemma inherited_ok_unwritten: "inherited_ok ps prototype_objects"
  by (auto simp: inherited_ok_def prototype_objects_def inh_ok_def unwritten_def)

lemma bot_inv_constructor: "bot_inv (constructor f ex)"
  using inherited_ok_unwritten[of "[]"]
  by (simp add: bot_inv_def constructor_def inherited_ok_def)

lemma bot_inv_recording_alice: "bot_inv recording_alice"
  using inherited_ok_unwritten[of "procs recording_alice"]
  by (simp add: bot_inv_def recording_alice_def rec_ok_def inherited_ok_def)

section \<open>Draining a removed entity, operation by operation\<close>

lemma own_sync_streamer_other:
  "n \<noteq> a \<Longrightarrow> map_of (streamers (sync_streamer a s)) n = map_of (streamers s) n"
  by (auto simp: sync_streamer_def put_def update_conv' split: found.splits place.splits)

lemma own_sync_other:
  "n \<notin> set names \<Longrightarrow> map_of (streamers (fold sync_streamer names s)) n = map_of (streamers s) n"
  by (induction names arbitrary: s) (auto simp: own_sync_streamer_other)

lemma map_of_prune_streamer:
  "map_of (prune_streamer k reg) n =
     (if n = k \<and> (\<exists>r. map_of reg n = Some r \<and> \<not> recording r) then None else map_of reg n)"
  by (auto simp: prune_streamer_def delete_conv' split: option.splits)

lemma map_of_fold_prune:
  "map_of (fold prune_streamer ks reg) n =
     (if n \<in> set ks \<and> (\<exists>r. map_of reg n = Some r \<and> \<not> recording r) then None else map_of reg n)"
proof (induction ks arbitrary: reg)
  case Nil
  then show ?case by simp
next
  case (Cons k ks)
  show ?case
    by (simp add: Cons.IH map_of_prune_streamer) auto
qed

lemma map_of_prune:
  "map_of (prune names reg) n =
     (case map_of reg n of
        None \<Rightarrow> None
      | Some r \<Rightarrow> if n \<notin> set names \<and> \<not> recording r then None else Some r)"
  by (auto simp: prune_def map_of_fold_prune split: option.splits dest: map_of_SomeD
      intro: rev_image_eqI)

lemma draining_iff:
  "draining name h s \<longleftrightarrow>
     (\<exists>c names r. config s = Some c \<and> cfile s = Some (Doc c) \<and> cstreamers c = Some names \<and>
        name \<notin> set names \<and> h < length (procs s) \<and> pname (procs s ! h) = name \<and>
        map_of (streamers s) name = Some r \<and> recording r \<and> proc r = PHandle h)"
  by (auto simp: draining_def unconfigured_def split: option.splits)

lemma draining_keep:
  assumes "draining name h s" and "config s' = config s" and "cfile s' = cfile s"
    and "map_of (streamers s') name = map_of (streamers s) name"
    and "h < length (procs s') \<and> pname (procs s' ! h) = name"
  shows "draining name h s'"
  using assms by (auto simp: draining_iff)

lemma draining_put:
  assumes "draining name h s"
    and "pl = Registry \<and> n = name \<longrightarrow> recording r \<and> proc r = PHandle h"
  shows "draining name h (put pl n r s)"
  using assms by (cases pl) (auto simp: draining_iff update_conv')

lemma draining_run_begin:
  assumes "draining name h s"
  shows "draining name h (state_of (run_begin s)) \<and> procs (state_of (run_begin s)) = procs s"
  using assms
  by (auto simp: draining_iff run_begin_def Let_def checkConfigExists_def
        reloadConfig_def map_of_prune own_sync_other)

lemma draining_call_run:
  "draining name h s \<Longrightarrow> draining name h (call_run s) \<and> procs (call_run s) = procs s"
  by (simp add: call_run_def draining_run_begin)

lemma draining_pause: "draining name h s \<Longrightarrow> draining name h (state_of (pause s)) \<and> procs (state_of (pause s)) = procs s"
  by (auto simp: pause_def clear_pending_def draining_iff split: timer_ref.splits)

lemma draining_config:
  assumes "draining name h s" "cstreamers c = Some names" "name \<notin> set names"
  shows "draining name h (s\<lparr>config := Some c, cfile := Some (Doc c)\<rparr>)"
  using assms by (auto simp: draining_iff)

lemma draining_timers: "draining name h s \<Longrightarrow> draining name h (s\<lparr>timers := ts\<rparr>)"
  by (simp add: draining_iff)

lemma draining_clear_pending: "draining name h s \<Longrightarrow> draining name h (clear_pending s)"
  by (auto simp: clear_pending_def draining_timers split: timer_ref.splits)

lemma procs_clear_pending [simp]: "procs (clear_pending s) = procs s"
  by (auto simp: clear_pending_def split: timer_ref.splits)

lemma draining_names:
  "draining name h s \<Longrightarrow> \<exists>c names. config s = Some c \<and> cstreamers c = Some names \<and> name \<notin> set names"
  by (auto simp: draining_iff)

lemma draining_addStreamer:
  assumes "draining name h s" "n \<noteq> Some name"
  shows "draining name h (state_of (addStreamer n s)) \<and> procs (state_of (addStreamer n s)) = procs s"
proof (cases n)
  case None
  then show ?thesis using assms by simp
next
  case (Some a)
  obtain c names where c: "config s = Some c" "cstreamers c = Some names" "name \<notin> set names"
    using draining_names[OF assms(1)] by blast
  let ?c1 = "c\<lparr>cstreamers := Some (config_streamers c @ [a])\<rparr>"
  have d: "draining name h ((clear_pending s)\<lparr>config := Some ?c1, cfile := Some (Doc ?c1)\<rparr>)"
    using c assms Some
    by (intro draining_config[where names = "names @ [a]"] draining_clear_pending)
       (auto simp: config_streamers_def)
  show ?thesis
    using assms(1) c Some d draining_call_run[OF d]
    by (auto simp: Let_def)
qed

lemma draining_removeStreamer:
  assumes "draining name h s"
  shows "draining name h (state_of (removeStreamer n s)) \<and> procs (state_of (removeStreamer n s)) = procs s"
proof (cases n)
  case None
  then show ?thesis using assms by simp
next
  case (Some a)
  obtain c names where c: "config s = Some c" "cstreamers c = Some names" "name \<notin> set names"
    using draining_names[OF assms(1)] by blast
  let ?c1 = "c\<lparr>cstreamers := Some (filter (\<lambda>streamer. streamer \<noteq> a) (config_streamers c))\<rparr>"
  have d: "draining name h (s\<lparr>config := Some ?c1, cfile := Some (Doc ?c1)\<rparr>)"
    using c assms
    by (intro draining_config[where names = "filter (\<lambda>streamer. streamer \<noteq> a) names"])
       (auto simp: config_streamers_def)
  show ?thesis
    using assms(1) c Some d
    by (auto simp: Let_def)
qed

lemma draining_kill: "draining name h s \<Longrightarrow> draining name h (s\<lparr>procs := kill k (procs s)\<rparr>)"
  by (auto simp: draining_iff kill_update_pname)

lemma sigints_kill_other: "k \<noteq> h \<Longrightarrow> sigints (kill k ps ! h) = sigints (ps ! h)"
  by (simp add: kill_def)

lemma draining_found:
  assumes "draining name h s" and "resolve s name = Found pl r"
  shows "pl = Registry \<and> recording r \<and> proc r = PHandle h"
  using assms by (auto simp: draining_iff resolve_Found)

lemma draining_same_object:
  assumes "draining name h s" and "resolve s n = Found pl r"
    and "recording r' = recording r" and "proc r' = proc r"
  shows "draining name h (put pl n r' s)"
  using assms(1) draining_found[OF assms(1)] assms(2-4)
  by (intro draining_put) auto

lemma draining_pauseStreamer:
  assumes "draining name h s" "bot_inv s"
  shows "draining name h (state_of (pauseStreamer n s))
       \<and> (n \<noteq> Some name \<longrightarrow> sigints (procs (state_of (pauseStreamer n s)) ! h) = sigints (procs s ! h))"
proof (cases n)
  case None
  then show ?thesis using assms by simp
next
  case (Some a)
  have d0: "draining name h (put pl a (r\<lparr>paused := True\<rparr>) s)"
    if "resolve s a = Found pl r" for r pl
    using assms(1) that by (rule draining_same_object) simp_all
  have d: "draining name h (put pl a (r\<lparr>paused := True\<rparr>) (s\<lparr>procs := kill k (procs s)\<rparr>))"
    if "resolve s a = Found pl r" for r k pl
    using draining_same_object[OF draining_kill[OF assms(1), of k], of a pl r "r\<lparr>paused := True\<rparr>"] that
    by simp
  have k: "k \<noteq> h" if "resolve s a = Found pl r" "proc r = PHandle k" "a \<noteq> name" for r k pl
  proof -
    have "heap_ok s" using assms(2) by (simp add: bot_inv_heap_ok)
    from heap_ok_found[OF this that(1)] that(2,3) assms(1) show ?thesis
      by (auto simp: inh_ok_def draining_iff)
  qed
  show ?thesis
    using assms(1) Some
    by (auto simp: Let_def d d0 sigints_kill_other k split: option.splits proc_ref.splits found.splits)
qed

lemma draining_resumeStreamer:
  assumes "draining name h s"
  shows "draining name h (state_of (resumeStreamer n s)) \<and> procs (state_of (resumeStreamer n s)) = procs s"
proof (cases n)
  case None
  then show ?thesis using assms by simp
next
  case (Some a)
  have d: "draining name h (put pl a (r\<lparr>paused := False\<rparr>) s)"
    if "resolve s a = Found pl r" for r pl
    using assms that by (rule draining_same_object) simp_all
  show ?thesis
    using assms Some d draining_call_run
    by (auto simp: Let_def split: option.splits found.splits)
qed

lemma draining_timer_fires:
  "draining name h s \<Longrightarrow> draining name h (state_of (timer_fires k s)) \<and> procs (state_of (timer_fires k s)) = procs s"
  using draining_run_begin[of name h "s\<lparr>timers := (timers s)[k := Fired]\<rparr>"]
  by (auto simp: timer_fires_def draining_timers split: timer.splits)

lemma draining_run_end:
  "draining name h s \<Longrightarrow> draining name h (state_of (run_end s)) \<and> procs (state_of (run_end s)) = procs s"
  by (auto simp: run_end_def Let_def draining_iff)

lemma draining_append:
  "draining name h s \<Longrightarrow> draining name h (s\<lparr>procs := procs s @ [c]\<rparr>)"
  by (auto simp: draining_iff nth_append)

lemma draining_start:
  assumes "draining name h s" and "pl = Registry \<longrightarrow> n \<noteq> name"
  shows "draining name h (start pl n c r s) \<and> sigints (procs (start pl n c r s) ! h) = sigints (procs s ! h)"
proof -
  have "h < length (procs s)" using assms(1) by (auto simp: draining_iff)
  then show ?thesis
    using draining_put[OF draining_append[OF assms(1)], of pl n]  assms(2)
    by (auto simp: start_def Let_def nth_append)
qed

lemma draining_updateStreamer:
  assumes "draining name h s"
  shows "draining name h (state_of (updateStreamer n response s))
       \<and> sigints (procs (state_of (updateStreamer n response s)) ! h) = sigints (procs s ! h)"
proof -
  have d: "draining name h (put pl n (r\<lparr>meta := info\<rparr>) s)"
    if "resolve s n = Found pl r" for r info pl
    using assms that by (rule draining_same_object) simp_all
  have rec: "recording r" if "resolve s n = Found Registry r" "n = name" for r
    using draining_found[OF assms, of Registry r] that by simp
  have st: "draining name h (start pl n c r' (put pl n (r\<lparr>meta := info\<rparr>) s))
        \<and> sigints (procs (start pl n c r' (put pl n (r\<lparr>meta := info\<rparr>) s)) ! h)
            = sigints (procs s ! h)"
    if "resolve s n = Found pl r" "pl = Registry \<longrightarrow> n \<noteq> name" for r r' info c pl
    using draining_start[OF d[OF that(1)] that(2), of c r' info] by simp
  have pl: "pl = Registry \<longrightarrow> n \<noteq> name" if "resolve s n = Found pl r" "\<not> recording r" for pl r
    using that rec by (cases pl) auto
  show ?thesis
    using assms
    by (auto simp: updateStreamer_def getInfo_def Let_def d st pl
        split: option.splits sum.splits found.splits)
qed

lemma draining_reset_or_delete:
  assumes "draining name h s" "n \<noteq> name"
  shows "draining name h (state_of (reset_or_delete n s)) \<and> procs (state_of (reset_or_delete n s)) = procs s"
proof -
  have d: "draining name h (put pl n r s)" for pl r
    using assms by (intro draining_put) auto
  have e: "draining name h (s\<lparr>streamers := AList.delete n (streamers s)\<rparr>)"
    using assms by (auto simp: draining_iff delete_conv')
  show ?thesis
    using assms(1) d e
    by (auto simp: reset_or_delete_def split: option.splits found.splits)
qed

lemma draining_procs_other:
  assumes "draining name h s" "pname (procs s ! k) \<noteq> name"
  shows "draining name h (s\<lparr>procs := (procs s)[k := v]\<rparr>)
         \<and> sigints ((procs s)[k := v] ! h) = sigints (procs s ! h)"
proof -
  have "k \<noteq> h" using assms by (auto simp: draining_iff)
  then show ?thesis using assms(1) by (auto simp: draining_iff)
qed

lemma draining_child_exit:
  assumes "draining name h s" "\<not> (k < length (procs s) \<and> pname (procs s ! k) = name)"
  shows "draining name h (state_of (child_exit k code s))
       \<and> sigints (procs (state_of (child_exit k code s)) ! h) = sigints (procs s ! h)"
proof (cases "k < length (procs s)")
  case False
  then show ?thesis using assms by (simp add: child_exit_def)
next
  case True
  then have n: "pname (procs s ! k) \<noteq> name" using assms(2) by simp
  let ?s = "s\<lparr>procs := (procs s)[k := (procs s ! k)\<lparr>exitCode := code, reported := True\<rparr>]\<rparr>"
  from draining_procs_other[OF assms(1) n, of "(procs s ! k)\<lparr>exitCode := code, reported := True\<rparr>"]
  have d: "draining name h ?s" and sg: "sigints (procs ?s ! h) = sigints (procs s ! h)" by simp_all
  from draining_reset_or_delete[OF d n] sg True show ?thesis
    by (simp add: child_exit_def on_exit_def)
qed

lemma draining_child_error:
  assumes "draining name h s" "\<not> (k < length (procs s) \<and> pname (procs s ! k) = name)"
  shows "draining name h (state_of (child_error k s))
       \<and> sigints (procs (state_of (child_error k s)) ! h) = sigints (procs s ! h)"
proof (cases "k < length (procs s)")
  case False
  then show ?thesis using assms by (simp add: child_error_def)
next
  case True
  then have n: "pname (procs s ! k) \<noteq> name" using assms(2) by simp
  then have kh: "k \<noteq> h" using assms(1) by (auto simp: draining_iff)
  let ?s = "s\<lparr>procs := (procs s)[k := (procs s ! k)\<lparr>reported := True\<rparr>]\<rparr>"
  from draining_procs_other[OF assms(1) n, of "(procs s ! k)\<lparr>reported := True\<rparr>"]
  have d: "draining name h ?s" and sg: "sigints (procs ?s ! h) = sigints (procs s ! h)" by simp_all
  have d2: "draining name h (?s\<lparr>procs := kill k (procs ?s)\<rparr>)" using d by (rule draining_kill)
  have sg2: "sigints (kill k (procs ?s) ! h) = sigints (procs s ! h)"
    using sg kh by (simp add: sigints_kill_other)
  from draining_reset_or_delete[OF d2 n] sg2 True show ?thesis
    by (simp add: child_error_def on_error_def)
qed

lemma draining_step:
  assumes "draining name h s" "bot_inv s" "\<not> ends_drain name s e"
  shows "draining name h (state_of (step e s))
       \<and> (e \<noteq> PauseStreamer (Some name) \<longrightarrow>
            sigints (procs (state_of (step e s)) ! h) = sigints (procs s ! h))"
proof (cases e)
  case GetStatus then show ?thesis using assms by simp
next
  case Pause then show ?thesis using draining_pause[OF assms(1)] by simp
next
  case Run then show ?thesis using draining_call_run[OF assms(1)] by simp
next
  case (AddStreamer n) then show ?thesis using draining_addStreamer[OF assms(1), of n] assms(3) by simp
next
  case (RemoveStreamer n) then show ?thesis using draining_removeStreamer[OF assms(1), of n] by simp
next
  case (PauseStreamer n) then show ?thesis using draining_pauseStreamer[OF assms(1,2), of n] by simp
next
  case (ResumeStreamer n) then show ?thesis using draining_resumeStreamer[OF assms(1), of n] by simp
next
  case (TimerFires k) then show ?thesis using draining_timer_fires[OF assms(1), of k] by simp
next
  case (ProbeSettles n r) then show ?thesis using draining_updateStreamer[OF assms(1), of n r] by simp
next
  case TickEnds then show ?thesis using draining_run_end[OF assms(1)] by simp
next
  case (ChildExit k code) then show ?thesis using draining_child_exit[OF assms(1), of k code] assms(3) by simp
next
  case (ChildError k) then show ?thesis using draining_child_error[OF assms(1), of k] assms(3) by simp
next
  case (FileEdited f) then show ?thesis using assms(3) by simp
qed

lemma removal_starts_drain:
  assumes "bot_inv s" "name \<noteq> []" "config s = Some c" "name \<in> set (config_streamers c)"
    "map_of (streamers s) name = Some r" "recording r"
  shows "\<exists>h s1. proc r = PHandle h \<and> removeStreamer (Some name) s = Returned s1 \<and>
           streamers s1 = streamers s \<and> procs s1 = procs s \<and> draining name h s1"
  using bot_inv_lookup_rec[OF assms(1,5)] assms
  by (auto simp: rec_ok_def draining_iff Let_def config_streamers_def split: proc_ref.splits option.splits)

lemma drain_ends_on_exit:
  assumes "draining name h s"
  shows "\<exists>s1 s2. step (ChildExit h code) s = Returned s1 \<and> map_of (streamers s1) name = None
           \<and> step (ChildError h) s = Returned s2 \<and> map_of (streamers s2) name = None"
  using assms
  by (auto simp: draining_iff child_exit_def child_error_def on_exit_def on_error_def
        reset_or_delete_def delete_conv' kill_def)

section \<open>A tick on the state a tick leaves behind\<close>

lemma resolve_cong:
  assumes "map_of (streamers s') n = map_of (streamers s) n"
    and "map_of (inherited s') n = map_of (inherited s) n"
    and "prototype_paused s' = prototype_paused s"
  shows "resolve s' n = resolve s n"
  unfolding resolve_def assms ..

lemma prototype_paused_put:
  assumes "paused r' = paused r" and "resolve s m = Found pl r"
  shows "prototype_paused (put pl m r' s) = prototype_paused s"
proof (cases pl)
  case Registry
  then show ?thesis by (simp add: prototype_paused_def)
next
  case Prototype
  then have "map_of (inherited s) m = Some r" using assms(2) by (simp add: resolve_Found)
  then show ?thesis
    using assms(1) Prototype by (cases "m = ''__proto__''") (simp_all add: prototype_paused_def update_conv')
qed

lemma resolve_put_other:
  assumes "n \<noteq> m" and "paused r' = paused r" and "resolve s m = Found pl r"
  shows "resolve (put pl m r' s) n = resolve s n"
proof (rule resolve_cong)
  show "map_of (streamers (put pl m r' s)) n = map_of (streamers s) n"
    using assms(1) by (cases pl) (simp_all add: update_conv')
  show "map_of (inherited (put pl m r' s)) n = map_of (inherited s) n"
    using assms(1) by (cases pl) (simp_all add: update_conv')
  show "prototype_paused (put pl m r' s) = prototype_paused s"
    using assms(2,3) by (rule prototype_paused_put)
qed

lemma resolve_add_other:
  assumes "n \<noteq> m"
  shows "resolve (s\<lparr>streamers := AList.update m r (streamers s)\<rparr>) n = resolve s n"
  using assms by (intro resolve_cong) (simp_all add: update_conv' prototype_paused_def)

lemma synced_iff:
  "synced n s \<longleftrightarrow>
     resolve s n = Primitive \<or>
     (\<exists>pl r. resolve s n = Found pl r \<and> (recording r \<longrightarrow> proc_alive (procs s) (proc r)))"
  by (auto simp: synced_def split: found.splits)

lemma synced_frame:
  assumes "resolve s' n = resolve s n" and "procs s' = procs s"
  shows "synced n s' = synced n s"
  using assms by (simp add: synced_iff)

lemma procs_sync_streamer [simp]: "procs (sync_streamer m s) = procs s"
  by (auto simp: sync_streamer_def split: found.splits)

lemma synced_sync_streamer_same: "synced n (sync_streamer n s)"
proof (cases "resolve s n")
  case (Found pl r)
  then show ?thesis
    by (auto simp: synced_iff sync_streamer_def resolve_put_same)
next
  case Primitive
  then show ?thesis by (simp add: synced_iff sync_streamer_def)
next
  case Undefined
  then show ?thesis
    by (simp add: synced_iff sync_streamer_def resolve_own default_streamer_def update_conv')
qed

lemma resolve_sync_streamer_other:
  assumes "n \<noteq> m"
  shows "resolve (sync_streamer m s) n = resolve s n"
proof (cases "resolve s m")
  case (Found pl r)
  have "resolve (put pl m (r\<lparr>recording := False, proc := PNull\<rparr>) s) n = resolve s n"
    using assms _ Found by (rule resolve_put_other) simp
  then show ?thesis using Found by (simp add: sync_streamer_def)
next
  case Primitive
  then show ?thesis by (simp add: sync_streamer_def)
next
  case Undefined
  then show ?thesis using assms by (simp add: sync_streamer_def resolve_add_other)
qed

lemma synced_sync_streamer_keep: "synced n s \<Longrightarrow> synced n (sync_streamer m s)"
  using synced_frame[of "sync_streamer m s" n s]
  by (cases "m = n") (simp_all add: synced_sync_streamer_same resolve_sync_streamer_other)

lemma synced_fold_keep: "synced n s \<Longrightarrow> synced n (fold sync_streamer names s)"
  by (induction names arbitrary: s) (auto simp: synced_sync_streamer_keep)

lemma synced_fold: "n \<in> set names \<Longrightarrow> synced n (fold sync_streamer names s)"
proof (induction names arbitrary: s)
  case Nil
  then show ?case by simp
next
  case (Cons a names)
  show ?case
  proof (cases "n = a")
    case True
    then show ?thesis by (simp add: synced_fold_keep synced_sync_streamer_same)
  next
    case False
    then show ?thesis using Cons by simp
  qed
qed

lemma sync_streamer_id: "synced n s \<Longrightarrow> sync_streamer n s = s"
  by (auto simp: synced_def sync_streamer_def split: found.splits)

lemma fold_sync_id: "\<forall>n\<in>set names. synced n s \<Longrightarrow> fold sync_streamer names s = s"
  by (induction names) (auto simp: sync_streamer_id)

lemma synced_prune:
  assumes "synced n s" "n \<in> set names"
  shows "synced n (s\<lparr>streamers := prune names (streamers s)\<rparr>)"
proof -
  have "resolve (s\<lparr>streamers := prune names (streamers s)\<rparr>) n = resolve s n"
    using assms(2) by (intro resolve_cong) (simp_all add: prototype_paused_def map_of_prune split: option.splits)
  then show ?thesis using assms(1) synced_frame[of "s\<lparr>streamers := prune names (streamers s)\<rparr>" n s] by simp
qed

lemma fold_id: "\<forall>x\<in>set xs. f x s = s \<Longrightarrow> fold f xs s = s"
  by (induction xs) auto

lemma prune_id:
  assumes "\<forall>n r. map_of reg n = Some r \<longrightarrow> n \<notin> set names \<longrightarrow> recording r"
  shows "prune names reg = reg"
  unfolding prune_def
proof (rule fold_id, rule ballI)
  fix n assume "n \<in> set (filter (\<lambda>n. n \<notin> set names) (map fst reg))"
  then have "n \<notin> set names" by simp
  with assms show "prune_streamer n reg = reg"
    by (auto simp: prune_streamer_def split: option.splits)
qed

lemma pruned_prune:
  "map_of (prune names reg) n = Some r \<Longrightarrow> n \<notin> set names \<Longrightarrow> recording r"
  by (auto simp: map_of_prune split: option.splits if_splits)

lemma updateStreamer_id:
  assumes "settled probe n (streamers s)"
  shows "updateStreamer n (probe n) s = Returned s"
proof -
  obtain r where r: "map_of (streamers s) n = Some r" "getInfo (probe n) = Inr (meta r)"
      "paused r \<or> (\<exists>st. room_status (meta r) = Inr st \<and> (st \<noteq> JStr ''public'' \<or> recording r))"
    using assms by (auto simp: settled_def split: option.splits sum.splits)
  have f: "resolve s n = Found Registry r" using r(1) by (simp add: resolve_own)
  have "AList.update n (r\<lparr>meta := meta r\<rparr>) (streamers s) = streamers s"
    using r(1) by (simp add: update_triv)
  then have "put Registry n (r\<lparr>meta := meta r\<rparr>) s = s" by (simp add: put_def)
  then show ?thesis
    using r f by (auto simp: updateStreamer_def Let_def)
qed

lemma run_updates_id:
  "\<forall>n\<in>set ns. settled probe n (streamers s) \<Longrightarrow> run_updates probe ns s = (None, s)"
  by (induction ns) (auto simp: updateStreamer_id)

lemma run_begin_id:
  assumes "config s = Some c" "cfile s = Some (Doc c)" "cstreamers c = Some names"
    "\<forall>n\<in>set names. synced n s" "pruned names (streamers s)"
  shows "run_begin s = Returned (s\<lparr>running := True, timeout := TFalse\<rparr>)"
proof -
  define s1 where "s1 = s\<lparr>running := True, timeout := TFalse\<rparr>"
  have f: "config s1 = Some c" "cfile s1 = Some (Doc c)" "streamers s1 = streamers s"
    using assms(1,2) by (simp_all add: s1_def)
  have "synced n s1 = synced n s" for n
    by (rule synced_frame, rule resolve_frame) (simp_all add: s1_def)
  then have "\<forall>n\<in>set names. synced n s1" using assms(4) by simp
  then have a: "fold sync_streamer names s1 = s1" by (rule fold_sync_id)
  have b: "prune names (streamers s1) = streamers s1"
    unfolding f using assms(5) by (intro prune_id) (auto simp: pruned_def)
  have "run_begin s = Returned (s1\<lparr>streamers := prune names (streamers s1)\<rparr>)"
    using f(1,2) assms(3) a
    unfolding run_begin_def s1_def[symmetric] Let_def checkConfigExists_def reloadConfig_def
    by simp
  then show ?thesis unfolding b by (simp add: s1_def)
qed

lemma quiescent_run:
  assumes "quiescent probe s" and "\<forall>ks. set (order ks) = set ks"
  shows "\<exists>s2. run order probe s = Returned s2 \<and> procs s2 = procs s \<and> streamers s2 = streamers s"
proof -
  obtain c names where q: "config s = Some c" "cfile s = Some (Doc c)" "cstreamers c = Some names"
      "\<forall>n\<in>set names. synced n s" "pruned names (streamers s)"
      "\<forall>n\<in>set (map fst (streamers s)). settled probe n (streamers s)"
    using assms unfolding quiescent_def by blast
  let ?s1 = "s\<lparr>running := True, timeout := TFalse\<rparr>"
  have b: "run_begin s = Returned ?s1" using q(1-5) by (rule run_begin_id)
  have u: "run_updates probe (order (map fst (streamers ?s1))) ?s1 = (None, ?s1)"
    using q(6) assms(2) by (intro run_updates_id) simp
  show ?thesis
    using b u q(1) by (simp add: run_def run_end_def Let_def)
qed

lemma proc_alive_append:
  "exitCode c = None \<Longrightarrow> proc_alive ps p \<Longrightarrow> proc_alive (ps @ [c]) p"
  by (auto simp: proc_alive_def exitCode_of_def nth_append split: proc_ref.splits option.splits if_splits)

lemma synced_append:
  "exitCode c = None \<Longrightarrow> synced n s \<Longrightarrow> synced n (s\<lparr>procs := procs s @ [c]\<rparr>)"
  by (auto simp: synced_iff proc_alive_append)

lemma synced_put:
  assumes "synced n s" and "resolve s m = Found pl r" and "paused r' = paused r"
    and "n = m \<longrightarrow> recording r' \<longrightarrow> proc_alive (procs s) (proc r')"
  shows "synced n (put pl m r' s)"
proof (cases "n = m")
  case True
  then show ?thesis using assms(2,4) by (simp add: synced_iff resolve_put_same)
next
  case False
  then show ?thesis
    using assms(1) resolve_put_other[OF False assms(3,2)] synced_frame[of "put pl m r' s" n s] by simp
qed

lemma synced_set_meta:
  assumes "synced n s" "resolve s m = Found pl r"
  shows "synced n (put pl m (r\<lparr>meta := info\<rparr>) s)"
proof (rule synced_put[OF assms])
  show "paused (r\<lparr>meta := info\<rparr>) = paused r" by simp
  show "n = m \<longrightarrow> recording (r\<lparr>meta := info\<rparr>) \<longrightarrow> proc_alive (procs s) (proc (r\<lparr>meta := info\<rparr>))"
    using assms(2) assms(1) by (auto simp: synced_iff)
qed

lemma synced_start:
  assumes "synced n s" and "resolve s m = Found pl r0" and "paused r = paused r0"
  shows "synced n (start pl m c r s)"
proof -
  have "synced n (put pl m (r\<lparr>proc := PHandle (length (procs s)), recording := True\<rparr>)
                    (s\<lparr>procs := procs s @ [ch]\<rparr>))"
    if "exitCode ch = None" for ch
  proof (rule synced_put[where r = r0])
    show "synced n (s\<lparr>procs := procs s @ [ch]\<rparr>)" using that assms(1) by (rule synced_append)
    show "resolve (s\<lparr>procs := procs s @ [ch]\<rparr>) m = Found pl r0" using assms(2) by simp
    show "paused (r\<lparr>proc := PHandle (length (procs s)), recording := True\<rparr>) = paused r0"
      using assms(3) by simp
    show "n = m \<longrightarrow> recording (r\<lparr>proc := PHandle (length (procs s)), recording := True\<rparr>) \<longrightarrow>
          proc_alive (procs (s\<lparr>procs := procs s @ [ch]\<rparr>))
            (proc (r\<lparr>proc := PHandle (length (procs s)), recording := True\<rparr>))"
      using that by (simp add: proc_alive_def exitCode_of_def)
  qed
  then show ?thesis by (simp add: start_def Let_def)
qed

lemma synced_updateStreamer:
  assumes "synced n s"
  shows "synced n (state_of (updateStreamer m response s))"
proof -
  have a: "synced n (put pl m (r\<lparr>meta := info\<rparr>) s)"
    if "resolve s m = Found pl r" for r info pl
    using assms that by (rule synced_set_meta)
  have b: "synced n (start pl m c (r\<lparr>meta := info\<rparr>) (put pl m (r\<lparr>meta := info\<rparr>) s))"
    if "resolve s m = Found pl r" for r info c pl
    using a[OF that, of info] resolve_put_same[OF that, of "r\<lparr>meta := info\<rparr>"]
    by (rule synced_start) simp
  show ?thesis
    using assms
    by (auto simp: updateStreamer_def getInfo_def Let_def a b
        split: option.splits sum.splits found.splits)
qed

lemma own_put:
  "map_of (streamers (put pl m r s)) n =
     (if pl = Registry \<and> n = m then Some r else map_of (streamers s) n)"
  by (cases pl) (auto simp: update_conv')

lemma own_updateStreamer_cases:
  assumes "map_of (streamers (state_of (updateStreamer m response s))) n = Some r'"
  shows "\<exists>r. map_of (streamers s) n = Some r \<and> (recording r \<longrightarrow> recording r')"
proof -
  have own: "map_of (streamers s) m = Some r" if "resolve s m = Found Registry r" for r
    using that by (simp add: resolve_Found)
  show ?thesis
    using assms
    by (auto simp: updateStreamer_def getInfo_def Let_def start_def own_put dest!: own
        split: option.splits sum.splits found.splits if_splits)
qed

lemma pruned_updateStreamer:
  assumes "pruned names (streamers s)"
  shows "pruned names (streamers (state_of (updateStreamer m response s)))"
  unfolding pruned_def
proof (intro allI impI)
  fix n r'
  assume "map_of (streamers (state_of (updateStreamer m response s))) n = Some r'"
  with own_updateStreamer_cases[of m response s n r'] assms
  show "n \<in> set names \<or> recording r'" by (auto simp: pruned_def)
qed

lemma keys_put:
  "resolve s m = Found pl r \<Longrightarrow> map fst (streamers (put pl m r' s)) = map fst (streamers s)"
  by (cases pl) (auto simp: resolve_Found update_keys dest: map_of_SomeD intro: rev_image_eqI)

lemma keys_updateStreamer:
  "map fst (streamers (state_of (updateStreamer m response s))) = map fst (streamers s)"
proof -
  have a: "map fst (streamers (put pl m r' s)) = map fst (streamers s)"
    if "resolve s m = Found pl r" for r r' pl
    using that by (rule keys_put)
  have b: "map fst (streamers (start pl m c r'' (put pl m r' s))) = map fst (streamers s)"
    if "resolve s m = Found pl r" for r r' r'' pl c
  proof -
    have "resolve (put pl m r' s\<lparr>procs := ps\<rparr>) m = Found pl r'" for ps
      using resolve_put_same[OF that, of r'] by simp
    from keys_put[OF this] a[OF that] show ?thesis by (simp add: start_def Let_def)
  qed
  show ?thesis
    by (auto simp: updateStreamer_def getInfo_def Let_def a b
        split: option.splits sum.splits found.splits)
qed

lemma frame_updateStreamer:
  "config (state_of (updateStreamer m response s)) = config s \<and>
   cfile (state_of (updateStreamer m response s)) = cfile s"
  by (auto simp: updateStreamer_def getInfo_def Let_def start_def
      split: option.splits sum.splits found.splits)

lemma settled_other:
  assumes "settled probe n (streamers s)" "n \<noteq> m"
  shows "settled probe n (streamers (state_of (updateStreamer m response s)))"
proof -
  have "map_of (streamers (state_of (updateStreamer m response s))) n = map_of (streamers s) n"
    using assms(2)
    by (auto simp: updateStreamer_def getInfo_def Let_def start_def own_put
        split: option.splits sum.splits found.splits)
  then show ?thesis using assms(1) by (simp add: settled_def)
qed

lemma settled_iff:
  "settled probe n reg \<longleftrightarrow>
     (\<exists>r. map_of reg n = Some r \<and> getInfo (probe n) = Inr (meta r) \<and>
        (paused r \<or> (\<exists>st. room_status (meta r) = Inr st \<and> (st \<noteq> JStr ''public'' \<or> recording r))))"
  by (auto simp: settled_def split: option.splits sum.splits)

lemma settled_same:
  assumes "updateStreamer m (probe m) s = Returned s'" and "m \<in> set (map fst (streamers s))"
  shows "settled probe m (streamers s')"
proof -
  obtain r where "map_of (streamers s) m = Some r"
    using assms(2) by (cases "map_of (streamers s) m") (auto simp: map_of_eq_None_iff)
  then have f: "resolve s m = Found Registry r" by (rule resolve_own)
  obtain info where i: "getInfo (probe m) = Inr info"
    by (cases "probe m") (simp_all add: getInfo_def)
  show ?thesis
    using assms(1) f i
    by (auto simp: updateStreamer_def Let_def start_def settled_iff update_conv'
        split: option.splits sum.splits if_splits)
qed

lemma run_updates_Cons_None:
  assumes "run_updates probe (a # ns) s = (None, s')"
  shows "\<exists>s1. updateStreamer a (probe a) s = Returned s1 \<and> run_updates probe ns s1 = (None, s')"
  using assms by (cases "updateStreamer a (probe a) s") auto

lemma run_updates_settles:
  assumes "run_updates probe ns s = (None, s')" and "set ns \<subseteq> set (map fst (streamers s))"
  shows "config s' = config s \<and> cfile s' = cfile s
       \<and> map fst (streamers s') = map fst (streamers s)
       \<and> (pruned names (streamers s) \<longrightarrow> pruned names (streamers s'))
       \<and> (\<forall>n. synced n s \<longrightarrow> synced n s')
       \<and> (\<forall>n. settled probe n (streamers s) \<or> n \<in> set ns \<longrightarrow> settled probe n (streamers s'))"
  using assms
proof (induction ns arbitrary: s)
  case Nil
  then show ?case by simp
next
  case (Cons a ns)
  from run_updates_Cons_None[OF Cons.prems(1)]
  obtain s1 where s1: "updateStreamer a (probe a) s = Returned s1"
    and rest: "run_updates probe ns s1 = (None, s')" by blast
  have st: "state_of (updateStreamer a (probe a) s) = s1" using s1 by simp
  have f: "config s1 = config s" "cfile s1 = cfile s"
    using frame_updateStreamer[of a "probe a" s] st by simp_all
  have k: "map fst (streamers s1) = map fst (streamers s)"
    using keys_updateStreamer[of a "probe a" s] st by simp
  have sub: "set ns \<subseteq> set (map fst (streamers s1))" using Cons.prems(2) k by simp
  note IH = Cons.IH[OF rest sub]
  have p: "pruned names (streamers s1)" if "pruned names (streamers s)"
    using pruned_updateStreamer[OF that, of a "probe a"] st by simp
  have sy: "synced n s1" if "synced n s" for n
    using synced_updateStreamer[OF that, of a "probe a"] st by simp
  have se: "settled probe n (streamers s1)" if "settled probe n (streamers s) \<or> n = a" for n
  proof (cases "n = a")
    case True
    then show ?thesis using settled_same[of a probe s s1] s1 Cons.prems(2) by simp
  next
    case False
    with that have "settled probe n (streamers s)" by simp
    from settled_other[OF this False, of "probe a"] st show ?thesis by simp
  qed
  show ?case
    using IH f k p sy se by auto
qed

lemma pruned_after_prune: "pruned names (prune names reg)"
  unfolding pruned_def using pruned_prune by blast

lemma run_begin_syncs:
  assumes "run_begin s = Returned s1"
  shows "\<exists>c names. config s1 = Some c \<and> cfile s1 = Some (Doc c) \<and> cstreamers c = Some names \<and>
           (\<forall>n\<in>set names. synced n s1) \<and> pruned names (streamers s1)"
  using assms
  by (auto simp: run_begin_def Let_def checkConfigExists_def reloadConfig_def
        synced_fold synced_prune pruned_after_prune
      split: option.splits file_content.splits if_splits)

lemma run_reaches_quiescent:
  assumes "run order probe s = Returned s'" and "\<forall>ks. set (order ks) = set ks"
  shows "quiescent probe s'"
proof -
  obtain s1 where b: "run_begin s = Returned s1"
    using assms by (auto simp: run_def split: outcome.splits)
  obtain s2 where u: "run_updates probe (order (map fst (streamers s1))) s1 = (None, s2)"
    and e: "run_end s2 = Returned s'"
    using assms b by (auto simp: run_def split: prod.splits option.splits)
  obtain c names where c: "config s1 = Some c" "cfile s1 = Some (Doc c)" "cstreamers c = Some names"
     "\<forall>n\<in>set names. synced n s1" "pruned names (streamers s1)"
    using run_begin_syncs[OF b] by blast
  have sub: "set (order (map fst (streamers s1))) \<subseteq> set (map fst (streamers s1))"
    using assms(2) by simp
  note U = run_updates_settles[OF u sub, of names]
  have q2: "quiescent probe s2"
    unfolding quiescent_def
    using c U assms(2) by (intro exI[of _ c] exI[of _ names]) auto
  have r0: "procs s' = procs s2 \<and> streamers s' = streamers s2 \<and> inherited s' = inherited s2
         \<and> config s' = config s2 \<and> cfile s' = cfile s2"
    using e by (auto simp: run_end_def Let_def split: option.splits)
  have r: "resolve s' n = resolve s2 n \<and> procs s' = procs s2 \<and> streamers s' = streamers s2
         \<and> config s' = config s2 \<and> cfile s' = cfile s2" for n
    using r0 resolve_frame[of s' s2 n] by simp
  have "quiescent probe s' = quiescent probe s2"
    using r synced_frame[of s' _ s2] by (simp add: quiescent_def)
  with q2 show ?thesis by simp
qed

section \<open>Administrative validation\<close>

text \<open>
  \<^bold>\<open>C4.\<close> Adding a name that is already in the configured list fails and leaves
  the whole state (configuration, file, registry) as it was, with the duplicate
  error whenever a name was supplied; removing a name that is not in the
  configured list fails in the same way with the not-found error. (For the
  empty name the first guard, at lines 52 and 77, answers instead, with the
  same unchanged state.)
\<close>

theorem add_duplicate_remove_absent_rejected:
  assumes "config s = Some c"
  shows "(name \<in> set (config_streamers c) \<longrightarrow>
            (\<exists>msg. addStreamer (Some name) s = Thrown (Error msg) s \<and>
                   (name \<noteq> [] \<longrightarrow> msg = ''Streamer already in streamers list'')))
       \<and> (name \<notin> set (config_streamers c) \<longrightarrow>
            (\<exists>msg. removeStreamer (Some name) s = Thrown (Error msg) s \<and>
                   (name \<noteq> [] \<longrightarrow> msg = ''Streamer is not in streamers list'')))"
  using assms by simp

theorem add_duplicate_remove_absent_rejected_witness:
  "addStreamer (Some ''alice'') recording_alice
     = Thrown (Error ''Streamer already in streamers list'') recording_alice
   \<and> removeStreamer (Some ''bob'') recording_alice
     = Thrown (Error ''Streamer is not in streamers list'') recording_alice"
  using add_duplicate_remove_absent_rejected
          [of recording_alice "cfg_of [''alice'']" "''alice''"]
        add_duplicate_remove_absent_rejected
          [of recording_alice "cfg_of [''alice'']" "''bob''"]
  by (simp add: recording_alice_def cfg_of_def config_streamers_def)

text \<open>
  \<^bold>\<open>C10\<close>, as stated, says that for every configured name without a record in
  the registry \<open>pauseStreamer\<close> and \<open>resumeStreamer\<close> throw a \<^verbatim>\<open>TypeError\<close> and
  set no flag. The registry is a plain object, so for a name such as
  \<^verbatim>\<open>constructor\<close> the expression \<^verbatim>\<open>this.streamers[name]\<close> finds the function
  inherited from \<^verbatim>\<open>Object.prototype\<close>: after \<^verbatim>\<open>constructor\<close> has been added to the
  configuration it has no record (none is ever created for it, line 228
  finding the same function), and both methods return; \<open>pauseStreamer\<close> has set
  \<^verbatim>\<open>paused\<close> on the inherited function.
\<close>

theorem pause_resume_inherited_name_returns:
  "steps [Run, Pause, AddStreamer (Some ''constructor'')] (boot [''alice''])
     = Returned constructor_added
   \<and> ''constructor'' \<in> set (config_streamers (cfg_of [''alice'', ''constructor'']))
   \<and> config constructor_added = Some (cfg_of [''alice'', ''constructor''])
   \<and> map_of (streamers constructor_added) ''constructor'' = None
   \<and> map_of (streamers (call_run constructor_added)) ''constructor'' = None
   \<and> pauseStreamer (Some ''constructor'') constructor_added
       = Returned (constructor_added
           \<lparr>inherited :=
              AList.update ''constructor'' (unwritten\<lparr>paused := True\<rparr>) prototype_objects\<rparr>)
   \<and> resumeStreamer (Some ''constructor'') constructor_added = Returned constructor_added"
  by (simp add: constructor_added_def bob_added_def bot_defs)

text \<open>
  \<^bold>\<open>C10\<close>, amended. For a supplied name that is in the configured list, has no
  record in the registry and is not the name of a property that the registry
  inherits from \<^verbatim>\<open>Object.prototype\<close>, \<open>pauseStreamer\<close> and \<open>resumeStreamer\<close> pass the
  membership test and then throw a \<^verbatim>\<open>TypeError\<close>, with no change of state.
\<close>

theorem pause_resume_unregistered_TypeError:
  assumes "name \<noteq> []"
    and "config s = Some c"
    and "name \<in> set (config_streamers c)"
    and "map_of (streamers s) name = None"
    and "map_of (inherited s) name = None"
  shows "pauseStreamer (Some name) s = Thrown TypeError s
       \<and> resumeStreamer (Some name) s = Thrown TypeError s"
proof -
  have "resolve s name = Undefined \<or> resolve s name = Primitive"
    using assms(4,5) by (simp add: resolve_no_object)
  then show ?thesis using assms(1-3) by auto
qed

theorem pause_resume_unregistered_TypeError_witness:
  "steps [Run, Pause, AddStreamer (Some ''bob'')] (boot [''alice''])
     = Returned bob_added
   \<and> pauseStreamer (Some ''bob'') bob_added = Thrown TypeError bob_added
   \<and> resumeStreamer (Some ''bob'') bob_added = Thrown TypeError bob_added"
  using pause_resume_unregistered_TypeError
          [of "''bob''" bob_added "cfg_of [''alice'', ''bob'']"]
  by (simp add: bob_added_def bot_defs)

section \<open>Failures at the API layer\<close>

text \<open>
  \<^bold>\<open>C3.\<close> The claim is that every admin operation answers with a success or a
  failure result and that no exception reaches the transport. The code does
  not do that: whenever the method throws, the \<^verbatim>\<open>catch\<close> block of \<open>apiResponse\<close>
  itself throws a \<^verbatim>\<open>TypeError\<close> (its \<^verbatim>\<open>this.logger\<close> is \<^verbatim>\<open>undefined\<close>), so no failure
  result is ever returned. The request \<^verbatim>\<open>/api/add\<close> without a \<^verbatim>\<open>streamer\<close>
  parameter shows it in every state.
\<close>

theorem api_failure_escapes:
  "api_add None s = Escapes TypeError s
   \<and> apiResponse this_logger data (Thrown e s) = Escapes TypeError s"
  by (simp add: api_add_def apiResponse_def this_logger_def)

section \<open>Pausing the loop\<close>

text \<open>During a tick \<^verbatim>\<open>this.timeout\<close> is \<^verbatim>\<open>false\<close>, so \<open>pause\<close> only clears the flag;
  and the end of the tick creates a pending timer whatever the flag says.\<close>

lemma pause_in_flight:
  "running s \<Longrightarrow> timeout s = TFalse \<Longrightarrow> pause s = Returned (s\<lparr>running := False\<rparr>)"
  by (simp add: pause_def clear_pending_def)

lemma run_end_schedules:
  "config s = Some c \<Longrightarrow>
   timeout (state_of (run_end s)) = THandle (length (timers s)) \<and>
   (\<exists>d. timers (state_of (run_end s)) = timers s @ [Pending d])"
  by (simp add: run_end_def Let_def)

text \<open>
  \<^bold>\<open>C2.\<close> The claim is that a \<open>pause\<close> landing while a tick is in flight leaves
  no successor scheduled. The code schedules one all the same: line 261 is not
  guarded by \<^verbatim>\<open>this.running\<close>, and during the tick \<^verbatim>\<open>this.timeout\<close> is \<^verbatim>\<open>false\<close>, so
  \<open>pause\<close> has nothing to cancel. Here the bot starts its first tick, is
  paused before the probe of \<^verbatim>\<open>alice\<close> settles, and ends the tick with a pending
  timer; when that timer fires the bot is running again.
\<close>

theorem pause_during_tick_reschedules:
  "steps [Run, Pause, ProbeSettles ''alice'' (Inl (Error ''timeout'')), TickEnds]
     (boot [''alice''])
   = Returned paused_midtick
   \<and> \<not> running paused_midtick
   \<and> timeout paused_midtick = THandle 0
   \<and> timers paused_midtick = [Pending 60000]
   \<and> running (state_of (step (TimerFires 0) paused_midtick))"
  by (simp add: paused_midtick_def bot_defs)

section \<open>The sync step\<close>

text \<open>What line 230 does with a recording entry whose process has exited: the
  record is reset when the exit code is not zero and left alone when it is
  zero.\<close>

lemma sync_streamer_exit_code:
  assumes "map_of (streamers s) name = Some r" and "recording r" and "proc r = PHandle h"
    and "h < length (procs s)" and "exitCode (procs s ! h) = Some code"
  shows "sync_streamer name s =
           (if code = 0 then s
            else s\<lparr>streamers :=
                     AList.update name (r\<lparr>recording := False, proc := PNull\<rparr>) (streamers s)\<rparr>)"
  using assms resolve_own[OF assms(1)]
  by (simp add: sync_streamer_def proc_alive_def exitCode_of_def put_def)








text \<open>In the runs of the program the test of line 230 never fails. Node sets
  \<^verbatim>\<open>exitCode\<close> and emits \<^verbatim>\<open>exit\<close> in one callback, so a process with an exit code
  has reported; and a record that is recording holds the handle of a process
  that has not reported. The reset of lines 233-236 is a safeguard for states
  that the observers, as long as they run, do not leave behind.\<close>

lemma exit_inv_procs: "procs s' = procs s \<Longrightarrow> exit_inv s' = exit_inv s"
  by (simp add: exit_inv_def)

lemma exit_inv_iff:
  "exit_inv s \<longleftrightarrow>
     (\<forall>i<length (procs s). exitCode (procs s ! i) \<noteq> None \<longrightarrow> reported (procs s ! i))"
  by (simp add: exit_inv_def all_set_conv_all_nth)

lemma exit_inv_update:
  assumes "exit_inv s" and "exitCode c \<noteq> None \<longrightarrow> reported c"
  shows "exit_inv (s\<lparr>procs := (procs s)[h := c]\<rparr>)"
  unfolding exit_inv_iff
proof (intro allI impI)
  fix i
  assume i: "i < length (procs (s\<lparr>procs := (procs s)[h := c]\<rparr>))"
    and x: "exitCode (procs (s\<lparr>procs := (procs s)[h := c]\<rparr>) ! i) \<noteq> None"
  show "reported (procs (s\<lparr>procs := (procs s)[h := c]\<rparr>) ! i)"
  proof (cases "i = h")
    case True
    then show ?thesis using i x assms(2) by simp
  next
    case False
    then show ?thesis using i x assms(1) by (simp add: exit_inv_iff)
  qed
qed

lemma exit_inv_kill:
  assumes "exit_inv s"
  shows "exit_inv (s\<lparr>procs := kill h (procs s)\<rparr>)"
proof (cases "h < length (procs s)")
  case True
  then have "exitCode ((procs s ! h)\<lparr>sigints := Suc (sigints (procs s ! h))\<rparr>) \<noteq> None \<longrightarrow>
             reported ((procs s ! h)\<lparr>sigints := Suc (sigints (procs s ! h))\<rparr>)"
    using assms by (simp add: exit_inv_iff)
  from exit_inv_update[OF assms this] True show ?thesis by (simp add: kill_def)
next
  case False
  then show ?thesis using assms by (simp add: kill_def exit_inv_def)
qed

lemma exit_inv_report:
  "exit_inv s \<Longrightarrow> exit_inv (s\<lparr>procs := (procs s)[h := (procs s ! h)\<lparr>exitCode := code, reported := True\<rparr>]\<rparr>)"
  by (rule exit_inv_update) simp_all

lemma exit_inv_error:
  "exit_inv s \<Longrightarrow> exit_inv (s\<lparr>procs := (procs s)[h := (procs s ! h)\<lparr>reported := True\<rparr>]\<rparr>)"
  by (rule exit_inv_update) simp_all

lemma procs_run_begin: "procs (state_of (run_begin s)) = procs s"
  by (auto simp: run_begin_def Let_def checkConfigExists_def reloadConfig_def
      split: option.splits file_content.splits)

lemma procs_reset_or_delete: "procs (state_of (reset_or_delete n s)) = procs s"
  by (auto simp: reset_or_delete_def split: option.splits found.splits)

lemma exit_inv_updateStreamer: "exit_inv s \<Longrightarrow> exit_inv (state_of (updateStreamer n response s))"
  by (auto simp: updateStreamer_def getInfo_def Let_def start_def exit_inv_def
      split: option.splits sum.splits found.splits)

lemma exit_inv_pauseStreamer:
  assumes e: "exit_inv s"
  shows "exit_inv (state_of (pauseStreamer n s))"
proof (cases n)
  case None
  then show ?thesis using e by simp
next
  case (Some a)
  have "exit_inv (put pl a r (s\<lparr>procs := kill h (procs s)\<rparr>))" for pl r h
    using exit_inv_kill[OF e, of h] exit_inv_procs[of "put pl a r (s\<lparr>procs := kill h (procs s)\<rparr>)" "s\<lparr>procs := kill h (procs s)\<rparr>"]
    by simp
  moreover have "exit_inv (put pl a r s)" for pl r
    using e exit_inv_procs[of "put pl a r s" s] by simp
  ultimately show ?thesis
    using e Some by (auto simp: Let_def split: option.splits found.splits proc_ref.splits)
qed

lemma exit_inv_step:
  assumes e: "exit_inv s"
  shows "exit_inv (state_of (step ev s))"
proof (cases ev)
  case GetStatus then show ?thesis using e by simp
next
  case Pause
  then show ?thesis using e
    by (auto simp: pause_def clear_pending_def exit_inv_def split: timer_ref.splits)
next
  case Run
  then show ?thesis
    using e exit_inv_procs[OF procs_run_begin[of s]] by (simp add: call_run_def)
next
  case (AddStreamer n)
  have "exit_inv (call_run s')" if "procs s' = procs s" for s'
    using e exit_inv_procs[OF procs_run_begin[of s']] exit_inv_procs[OF that]
    by (simp add: call_run_def)
  moreover have "exit_inv s'" if "procs s' = procs s" for s'
    using e exit_inv_procs[OF that] by simp
  ultimately show ?thesis
    using e AddStreamer
    by (cases n) (auto simp: Let_def clear_pending_def split: option.splits timer_ref.splits)
next
  case (RemoveStreamer n)
  then show ?thesis
    using e
    by (cases n) (auto simp: Let_def exit_inv_def split: option.splits)
next
  case (PauseStreamer n)
  then show ?thesis using e by (simp add: exit_inv_pauseStreamer)
next
  case (ResumeStreamer n)
  have a: "exit_inv (put pl a r s)" for pl a r
    using e exit_inv_procs[of "put pl a r s" s] by simp
  have "exit_inv (call_run (put pl a r s))" for pl a r
    using a[of pl a r] exit_inv_procs[OF procs_run_begin[of "put pl a r s"]]
    by (simp add: call_run_def)
  then show ?thesis
    using e a ResumeStreamer
    by (cases n) (auto simp: Let_def split: option.splits found.splits)
next
  case (TimerFires h)
  have "exit_inv (state_of (run_begin (s\<lparr>timers := ts\<rparr>)))" for ts
    using e exit_inv_procs[OF procs_run_begin[of "s\<lparr>timers := ts\<rparr>"]]
      exit_inv_procs[of "s\<lparr>timers := ts\<rparr>" s] by simp
  then show ?thesis
    using e TimerFires by (auto simp: timer_fires_def split: timer.splits)
next
  case (ProbeSettles n response)
  then show ?thesis using e by (simp add: exit_inv_updateStreamer)
next
  case TickEnds
  then show ?thesis using e
    by (auto simp: run_end_def Let_def exit_inv_def split: option.splits)
next
  case (ChildExit h code)
  show ?thesis
    using ChildExit e exit_inv_report[OF e, of h code]
      exit_inv_procs[OF procs_reset_or_delete]
    by (simp add: child_exit_def on_exit_def)
next
  case (ChildError h)
  show ?thesis
    using ChildError e exit_inv_kill[OF exit_inv_error[OF e, of h], of h]
      exit_inv_procs[OF procs_reset_or_delete]
    by (simp add: child_error_def on_error_def)
next
  case (FileEdited f)
  then show ?thesis using e by (simp add: exit_inv_def)
qed

lemma exit_inv_constructor: "exit_inv (constructor f ex)"
  by (simp add: exit_inv_def constructor_def)

lemma recording_passes_line_230:
  assumes "bot_inv s" and "exit_inv s"
    and "map_of (streamers s) name = Some r" and "recording r"
  shows "proc_alive (procs s) (proc r)"
proof -
  have "rec_ok (procs s) name r" using assms(1,3) by (rule bot_inv_lookup_rec)
  then obtain h where h: "proc r = PHandle h" "h < length (procs s)" "\<not> reported (procs s ! h)"
    using assms(4) by (auto simp: rec_ok_def split: proc_ref.splits)
  then have "exitCode (procs s ! h) = None"
    using assms(2) by (auto simp: exit_inv_def)
  then show ?thesis using h by (simp add: proc_alive_def exitCode_of_def)
qed

section \<open>Pausing an entity\<close>

text \<open>
  \<^bold>\<open>C1\<close>, as stated, says that \<open>pauseStreamer\<close> of a recording entity signals its
  process and at once makes the record non-recording. The signal is sent, the
  record is not touched beyond \<^verbatim>\<open>paused\<close>: after pausing \<^verbatim>\<open>alice\<close> during a
  recording, the record of \<^verbatim>\<open>alice\<close> still has \<^verbatim>\<open>recording = true\<close> and its handle.
\<close>

theorem pauseStreamer_keeps_recording:
  "pauseStreamer (Some ''alice'') recording_alice
     = Returned (recording_alice
         \<lparr>streamers :=
            [(''alice'', \<lparr>recording = True, paused = True, proc = PHandle 0, meta = live\<rparr>)],
          procs :=
            [\<lparr>pname = ''alice'', cmd = ''yt-dlp'', args = [''https://chaturbate.com/alice/''],
              exitCode = None, sigints = 1, reported = False\<rparr>]\<rparr>)"
  by (simp add: recording_alice_def bot_defs)

text \<open>
  \<^bold>\<open>C1\<close>, amended. In a state that satisfies the registry invariant, for a
  supplied name with a record \<open>r\<close>: if \<open>r\<close> is recording, \<open>pauseStreamer\<close> sends
  one \<^verbatim>\<open>SIGINT\<close> to its process and sets \<^verbatim>\<open>paused\<close>, and the record stays recording
  with the same handle (it is the exit or error observer that resets it
  later); if \<open>r\<close> is not recording, \<open>pauseStreamer\<close> sets \<^verbatim>\<open>paused\<close> and changes
  nothing else.
\<close>

theorem pauseStreamer_signals_and_flags:
  assumes "bot_inv s" and "name \<noteq> []" and "map_of (streamers s) name = Some r"
  shows "(recording r \<longrightarrow>
            (\<exists>h. proc r = PHandle h \<and> h < length (procs s) \<and>
                 pauseStreamer (Some name) s =
                   Returned (s\<lparr>procs := kill h (procs s),
                               streamers := AList.update name (r\<lparr>paused := True\<rparr>) (streamers s)\<rparr>) \<and>
                 sigints (kill h (procs s) ! h) = Suc (sigints (procs s ! h)) \<and>
                 recording (r\<lparr>paused := True\<rparr>)))
       \<and> (\<not> recording r \<longrightarrow>
            pauseStreamer (Some name) s =
              Returned (s\<lparr>streamers := AList.update name (r\<lparr>paused := True\<rparr>) (streamers s)\<rparr>))"
proof -
  have ok: "rec_ok (procs s) name r" using assms(1,3) by (rule bot_inv_lookup_rec)
  have cfg: "config s \<noteq> None" using assms(1,3) by (auto simp: bot_inv_def)
  have key: "name \<in> set (map fst (streamers s))"
    using assms(3) by (metis map_of_eq_None_iff option.distinct(1) set_map)
  have f: "resolve s name = Found Registry r" using assms(3) by (rule resolve_own)
  show ?thesis
    using ok cfg key assms(2) f
    by (auto simp: rec_ok_def kill_def put_def Let_def split: proc_ref.splits option.splits)
qed

theorem pauseStreamer_signals_and_flags_witness:
  "bot_inv recording_alice
   \<and> sigints (procs (state_of (pauseStreamer (Some ''alice'') recording_alice)) ! 0) = 1
   \<and> map_of (streamers (state_of (pauseStreamer (Some ''alice'') recording_alice))) ''alice''
       = Some \<lparr>recording = True, paused = True, proc = PHandle 0, meta = live\<rparr>
   \<and> bot_inv bob_added
   \<and> pauseStreamer (Some ''alice'') bob_added
       = Returned (bob_added\<lparr>streamers := [(''alice'', default_streamer\<lparr>paused := True\<rparr>)]\<rparr>)"
proof -
  have a: "bot_inv recording_alice" by (rule bot_inv_recording_alice)
  have b: "bot_inv bob_added"
    using inherited_ok_unwritten[of "[]"]
    by (simp add: bot_inv_def bob_added_def rec_ok_def default_streamer_def inherited_ok_def)
  have ra: "map_of (streamers recording_alice) ''alice''
              = Some \<lparr>recording = True, paused = False, proc = PHandle 0, meta = live\<rparr>"
    by (simp add: recording_alice_def)
  have rb: "map_of (streamers bob_added) ''alice'' = Some default_streamer"
    by (simp add: bob_added_def)
  from pauseStreamer_signals_and_flags[OF a _ ra] pauseStreamer_signals_and_flags[OF b _ rb] a b
  show ?thesis
    by (simp add: recording_alice_def bob_added_def default_streamer_def kill_def)
qed

section \<open>Probe failures\<close>

text \<open>As long as the entity has a record when its probe settles, a failed
  probe is contained: \<open>getInfo\<close> yields \<^verbatim>\<open>false\<close>, \<open>updateStreamer\<close> stores it in
  \<^verbatim>\<open>meta\<close> and returns without starting a process, and the tick goes on.\<close>

lemma probe_failure_with_record:
  assumes "map_of (streamers s) name = Some r" and "probe name = Inl e"
  shows "getInfo (probe name) = Inr (JBool False)
       \<and> updateStreamer name (probe name) s =
           Returned (s\<lparr>streamers := AList.update name (r\<lparr>meta := JBool False\<rparr>) (streamers s)\<rparr>)
       \<and> procs (state_of (updateStreamer name (probe name) s)) = procs s"
  using assms resolve_own[OF assms(1)]
  by (simp add: updateStreamer_def getInfo_def room_status_def put_def Let_def)

lemma run_updates_failures:
  assumes "\<forall>n\<in>set ns. (\<exists>e. probe n = Inl e) \<and> n \<in> set (map fst (streamers s))"
  shows "\<exists>s'. run_updates probe ns s = (None, s') \<and> procs s' = procs s \<and> config s' = config s"
  using assms
proof (induction ns arbitrary: s)
  case Nil
  then show ?case by simp
next
  case (Cons a ns)
  obtain e where e: "probe a = Inl e" using Cons.prems by auto
  obtain r where r: "map_of (streamers s) a = Some r"
    using Cons.prems by (cases "map_of (streamers s) a") (auto simp: map_of_eq_None_iff)
  let ?s1 = "s\<lparr>streamers := AList.update a (r\<lparr>meta := JBool False\<rparr>) (streamers s)\<rparr>"
  have u: "updateStreamer a (probe a) s = Returned ?s1"
    using probe_failure_with_record[of s a r probe e] r e by simp
  have k: "map fst (streamers ?s1) = map fst (streamers s)"
    using keys_updateStreamer[of a "probe a" s] u by simp
  have "\<exists>s'. run_updates probe ns ?s1 = (None, s') \<and> procs s' = procs ?s1 \<and> config s' = config ?s1"
    using Cons.prems k by (intro Cons.IH) auto
  then show ?case using u by auto
qed

lemma tick_survives_failed_probes:
  assumes "\<forall>n. \<exists>e. probe n = Inl e" and "\<forall>ks. set (order ks) = set ks"
    and "run_begin s = Returned s1"
  shows "\<exists>s2. run order probe s = Returned s2 \<and> procs s2 = procs s1"
proof -
  obtain s' where u: "run_updates probe (order (map fst (streamers s1))) s1 = (None, s')"
      "procs s' = procs s1" "config s' = config s1"
    using run_updates_failures[of "order (map fst (streamers s1))" probe s1] assms(1,2) by auto
  obtain c where "config s1 = Some c" using run_begin_syncs[OF assms(3)] by blast
  then show ?thesis
    using u assms(3) by (simp add: run_def run_end_def Let_def)
qed

text \<open>
  \<^bold>\<open>C8.\<close> The claim is that a failed probe throws nothing, leaves \<^verbatim>\<open>meta\<close> unknown
  and aborts neither the other entities nor the tick. \<open>getInfo\<close> itself does
  not throw, but line 164 writes its result to \<^verbatim>\<open>this.streamers[name]\<close> without
  the test that the observers make at lines 191 and 204, and the record can be
  gone by then. Here \<^verbatim>\<open>alice\<close> is recording and is removed from the configuration;
  the timer fires and the tick starts a probe for the key \<^verbatim>\<open>alice\<close>, which prune
  has kept because it is recording; the recorder exits while the probe is
  pending, and its observer deletes the record; the probe then fails. Line 164
  throws a \<^verbatim>\<open>TypeError\<close>: no \<^verbatim>\<open>meta\<close> is set, \<^verbatim>\<open>Promise.all\<close> rejects and with it
  \<open>run\<close>, line 261 is not reached, and the bot is left running with no pending
  timer.
\<close>

theorem failed_probe_after_drain_throws:
  "steps [Run, ProbeSettles ''alice'' (Inr live), TickEnds, RemoveStreamer (Some ''alice''),
          TimerFires 0, ChildExit 0 (Some 0)] (boot [''alice''])
     = Returned drained_midtick
   \<and> getInfo (Inl (Error ''ECONNRESET'')) = Inr (JBool False)
   \<and> step (ProbeSettles ''alice'' (Inl (Error ''ECONNRESET''))) drained_midtick
     = Thrown TypeError drained_midtick
   \<and> steps [Run, ProbeSettles ''alice'' (Inr live), TickEnds, RemoveStreamer (Some ''alice''),
          TimerFires 0, ChildExit 0 (Some 0),
          ProbeSettles ''alice'' (Inl (Error ''ECONNRESET'')), TickEnds] (boot [''alice''])
     = Thrown TypeError drained_midtick
   \<and> running drained_midtick
   \<and> timers drained_midtick = [Fired]
   \<and> map_of (streamers drained_midtick) ''alice'' = None"
  by (simp add: drained_midtick_def bot_defs)

section \<open>The recording invariant\<close>

text \<open>
  \<^bold>\<open>C9.\<close> The registry invariant holds in a freshly constructed bot and is
  preserved by every step: each admin call, the prefix of a tick (sync and
  prune), the continuation of a probe (which may start a process) and the end
  of a tick, whether they return or throw, and the exit and error observers
  when they return (an observer that throws is an uncaught exception, after
  which there is no next state). In every state that satisfies it, a record
  with \<^verbatim>\<open>recording = true\<close> holds a handle, and the process behind that handle
  has reported neither exit nor error.
\<close>

theorem recording_implies_live_handle:
  assumes "bot_inv s" and "is_report e \<longrightarrow> (\<exists>s'. step e s = Returned s')"
  shows "bot_inv (constructor f ex) \<and> bot_inv (state_of (step e s)) \<and>
         (\<forall>n r. map_of (streamers (state_of (step e s))) n = Some r \<longrightarrow> recording r \<longrightarrow>
            (\<exists>h. proc r = PHandle h \<and> h < length (procs (state_of (step e s))) \<and>
                 \<not> reported (procs (state_of (step e s)) ! h)))"
proof -
  have inv: "bot_inv (state_of (step e s))" using assms by (rule bot_inv_step_any)
  moreover have "\<exists>h. proc r = PHandle h \<and> h < length (procs (state_of (step e s))) \<and>
                     \<not> reported (procs (state_of (step e s)) ! h)"
    if "map_of (streamers (state_of (step e s))) n = Some r" "recording r" for n r
    using bot_inv_lookup_rec[OF inv that(1)] that(2)
    by (auto simp: rec_ok_def split: proc_ref.splits)
  ultimately show ?thesis using bot_inv_constructor by blast
qed

theorem recording_implies_live_handle_witness:
  "bot_inv (state_of (run_begin (boot [''alice''])))
   \<and> step (ProbeSettles ''alice'' (Inr live)) (state_of (run_begin (boot [''alice''])))
       = Returned (recording_alice\<lparr>timeout := TFalse, timers := []\<rparr>)
   \<and> bot_inv (recording_alice\<lparr>timeout := TFalse, timers := []\<rparr>)
   \<and> step (ChildExit 0 (Some 0)) recording_alice
       = Returned (recording_alice
          \<lparr>streamers :=
             [(''alice'', \<lparr>recording = False, paused = False, proc = PFalse, meta = live\<rparr>)],
           procs :=
             [\<lparr>pname = ''alice'', cmd = ''yt-dlp'', args = [''https://chaturbate.com/alice/''],
               exitCode = Some 0, sigints = 0, reported = True\<rparr>]\<rparr>)
   \<and> bot_inv (recording_alice
          \<lparr>streamers :=
             [(''alice'', \<lparr>recording = False, paused = False, proc = PFalse, meta = live\<rparr>)],
           procs :=
             [\<lparr>pname = ''alice'', cmd = ''yt-dlp'', args = [''https://chaturbate.com/alice/''],
               exitCode = Some 0, sigints = 0, reported = True\<rparr>]\<rparr>)"
proof -
  have a: "bot_inv (state_of (run_begin (boot [''alice''])))"
    using bot_inv_run_begin[OF bot_inv_constructor] by (simp add: boot_def)
  have b: "step (ProbeSettles ''alice'' (Inr live)) (state_of (run_begin (boot [''alice''])))
       = Returned (recording_alice\<lparr>timeout := TFalse, timers := []\<rparr>)"
    by (simp add: recording_alice_def bot_defs)
  have c: "bot_inv recording_alice" by (rule bot_inv_recording_alice)
  have d: "step (ChildExit 0 (Some 0)) recording_alice
       = Returned (recording_alice
          \<lparr>streamers :=
             [(''alice'', \<lparr>recording = False, paused = False, proc = PFalse, meta = live\<rparr>)],
           procs :=
             [\<lparr>pname = ''alice'', cmd = ''yt-dlp'', args = [''https://chaturbate.com/alice/''],
               exitCode = Some 0, sigints = 0, reported = True\<rparr>]\<rparr>)"
    by (simp add: recording_alice_def bot_defs)
  have e: "is_report (ProbeSettles ''alice'' (Inr live)) \<longrightarrow>
           (\<exists>s'. step (ProbeSettles ''alice'' (Inr live)) (state_of (run_begin (boot [''alice''])))
                  = Returned s')" by simp
  have f: "is_report (ChildExit 0 (Some 0)) \<longrightarrow>
           (\<exists>s'. step (ChildExit 0 (Some 0)) recording_alice = Returned s')"
    using d by blast
  from recording_implies_live_handle[OF a e] recording_implies_live_handle[OF c f] a b d
  show ?thesis by simp
qed

section \<open>Removal drains\<close>

text \<open>
  \<^bold>\<open>C5.\<close> Removing a configured entity whose record is recording leaves the
  registry and the processes exactly as they were (nothing is signalled) and
  the entity is from then on draining. While it drains, every step except a
  report of a process spawned for it, re-adding it, or an edit of the file
  keeps its record recording with the same handle, whether the step returns or
  throws; only \<open>pauseStreamer\<close> of this very entity signals its process. The
  exit (or error) report of its process deletes the record.
\<close>

theorem removed_recording_drains:
  "(bot_inv s0 \<and> name \<noteq> [] \<and> config s0 = Some c \<and> name \<in> set (config_streamers c) \<and>
      map_of (streamers s0) name = Some r \<and> recording r \<longrightarrow>
      (\<exists>k s1. proc r = PHandle k \<and> removeStreamer (Some name) s0 = Returned s1 \<and>
         streamers s1 = streamers s0 \<and> procs s1 = procs s0 \<and> draining name k s1))
   \<and> (bot_inv s \<and> draining name h s \<and> \<not> ends_drain name s e \<longrightarrow>
        draining name h (state_of (step e s)) \<and>
        (e \<noteq> PauseStreamer (Some name) \<longrightarrow>
           sigints (procs (state_of (step e s)) ! h) = sigints (procs s ! h)))
   \<and> (draining name h s \<longrightarrow>
        (\<exists>s1 s2. step (ChildExit h code) s = Returned s1 \<and> map_of (streamers s1) name = None \<and>
           step (ChildError h) s = Returned s2 \<and> map_of (streamers s2) name = None))"
  using removal_starts_drain[of s0 name c r] draining_step[of name h s e]
    drain_ends_on_exit[of name h s code]
  by blast

theorem removed_recording_drains_witness:
  "bot_inv recording_alice
   \<and> removeStreamer (Some ''alice'') recording_alice = Returned alice_removed
   \<and> streamers alice_removed = streamers recording_alice
   \<and> procs alice_removed = procs recording_alice
   \<and> bot_inv alice_removed
   \<and> draining ''alice'' 0 alice_removed
   \<and> draining ''alice'' 0 (state_of (step (TimerFires 0) alice_removed))
   \<and> sigints (procs (state_of (step (TimerFires 0) alice_removed)) ! 0) = 0
   \<and> map_of (streamers (state_of (step (ChildExit 0 (Some 0)) alice_removed))) ''alice'' = None"
proof -
  have a: "bot_inv recording_alice" by (rule bot_inv_recording_alice)
  have c: "removeStreamer (Some ''alice'') recording_alice = Returned alice_removed"
    by (simp add: alice_removed_def recording_alice_def cfg_of_def config_streamers_def Let_def)
  have b: "bot_inv alice_removed"
    using bot_inv_removeStreamer[OF a, of "Some ''alice''"] c by simp
  have d: "draining ''alice'' 0 alice_removed"
    by (simp add: draining_def unconfigured_def alice_removed_def recording_alice_def cfg_of_def)
  have e: "\<not> ends_drain ''alice'' alice_removed (TimerFires 0)" by simp
  have f: "TimerFires 0 \<noteq> PauseStreamer (Some ''alice'')" by simp
  note T = removed_recording_drains
         [of recording_alice "''alice''" "cfg_of [''alice'']"
             "\<lparr>recording = True, paused = False, proc = PHandle 0, meta = live\<rparr>"
             alice_removed 0 "TimerFires 0" "Some 0"]
  have "config recording_alice = Some (cfg_of [''alice''])"
    and "''alice'' \<in> set (config_streamers (cfg_of [''alice'']))"
    and "map_of (streamers recording_alice) ''alice''
           = Some \<lparr>recording = True, paused = False, proc = PHandle 0, meta = live\<rparr>"
    by (simp_all add: recording_alice_def cfg_of_def config_streamers_def)
  with T a obtain k :: nat and s1 where "removeStreamer (Some ''alice'') recording_alice = Returned s1"
    and k: "streamers s1 = streamers recording_alice" "procs s1 = procs recording_alice"
    by auto
  with c have j: "streamers alice_removed = streamers recording_alice"
    "procs alice_removed = procs recording_alice"
    by simp_all
  from T b d e f
  have g: "draining ''alice'' 0 (state_of (step (TimerFires 0) alice_removed))"
    and h: "sigints (procs (state_of (step (TimerFires 0) alice_removed)) ! 0)
              = sigints (procs alice_removed ! 0)"
    by blast+
  from T d obtain s1 where "step (ChildExit 0 (Some 0)) alice_removed = Returned s1"
    and "map_of (streamers s1) ''alice'' = None"
    by blast
  then have i: "map_of (streamers (state_of (step (ChildExit 0 (Some 0)) alice_removed))) ''alice'' = None"
    by simp
  have z: "sigints (procs alice_removed ! 0) = 0"
    by (simp add: alice_removed_def recording_alice_def)
  from a b c d g h i j z show ?thesis by simp
qed

section \<open>Idempotence of the tick\<close>

text \<open>
  \<^bold>\<open>C6.\<close> If a tick completes, the tick that follows it with the same
  configuration file and the same probe results also completes and starts no
  process: the list of child processes is unchanged, and so is the registry.
  The two ticks may see their probes settle in different orders.
\<close>

theorem second_tick_starts_nothing:
  assumes "\<forall>ks. set (order1 ks) = set ks" and "\<forall>ks. set (order2 ks) = set ks"
    and "run order1 probe s = Returned s1"
  shows "\<exists>s2. run order2 probe s1 = Returned s2 \<and> procs s2 = procs s1 \<and>
              streamers s2 = streamers s1"
  using quiescent_run[OF run_reaches_quiescent[OF assms(3,1)] assms(2)] .

theorem second_tick_starts_nothing_witness:
  "run (\<lambda>ks. ks) (\<lambda>n. Inr live) (boot [''alice'']) = Returned recording_alice
   \<and> length (procs recording_alice) = 1
   \<and> (\<exists>s2. run rev (\<lambda>n. Inr live) recording_alice = Returned s2 \<and>
            procs s2 = procs recording_alice \<and> streamers s2 = streamers recording_alice)"
proof -
  have a: "\<forall>ks :: string list. set ((\<lambda>ks. ks) ks) = set ks" by simp
  have b: "\<forall>ks :: string list. set (rev ks) = set ks" by simp
  have c: "run (\<lambda>ks. ks) (\<lambda>n. Inr live) (boot [''alice'']) = Returned recording_alice"
    by (simp add: run_def recording_alice_def bot_defs)
  from second_tick_starts_nothing[OF a b c] c show ?thesis
    by (simp add: recording_alice_def)
qed

end
